theory Spec2Isabelle
  imports Main "HOL-Library.AList" "HOL-Library.Sublist"
begin

section \<open>Strings\<close>

text \<open>
  A Python \<open>str\<close> is modelled as a HOL \<open>string\<close> whose characters are the code points
  below 256; texts with higher code points lie outside the model. The string methods the
  program calls are written out for that range as Python computes them: \<open>lower\<close> adds 32
  to \<open>A\<close>..\<open>Z\<close> and to the capital letters 192..222 other than the multiplication sign
  215, and leaves every other character alone (the sharp s, 223, among them);
  \<open>strip\<close> removes the characters for which \<open>str.isspace\<close> holds (tab, line feed,
  vertical tab, form feed, carriage return, the separators 28..31, the blank, the next
  line control 133 and the no-break space 160) from both ends.
\<close>

definition lower_char :: "char \<Rightarrow> char" where
  "lower_char c =
     (if (65::nat) \<le> of_char c \<and> of_char c \<le> (90::nat)
         \<or> (192::nat) \<le> of_char c \<and> of_char c \<le> (222::nat) \<and> of_char c \<noteq> (215::nat)
      then char_of (of_char c + (32::nat)) else c)"

definition lower :: "string \<Rightarrow> string" where
  "lower s = map lower_char s"

definition isspace :: "char \<Rightarrow> bool" where
  "isspace c =
     ((9::nat) \<le> of_char c \<and> of_char c \<le> (13::nat)
      \<or> (28::nat) \<le> of_char c \<and> of_char c \<le> (32::nat)
      \<or> of_char c = (133::nat) \<or> of_char c = (160::nat))"

definition strip :: "string \<Rightarrow> string" where
  "strip s = rev (dropWhile isspace (rev (dropWhile isspace s)))"

text \<open>
  \<open>patent_text.split('. ')\<close>: the text is cut at every occurrence of a full stop
  followed by a blank, scanning from the left; the pieces between the cuts are returned,
  so the result always has at least one element.
\<close>

fun cons_first :: "char \<Rightarrow> string list \<Rightarrow> string list" where
  "cons_first c [] = [[c]]"
| "cons_first c (w # ws) = (c # w) # ws"

fun split_dot_space :: "string \<Rightarrow> string list" where
  "split_dot_space [] = [[]]"
| "split_dot_space [c] = [[c]]"
| "split_dot_space (c # d # cs) =
     (if c = CHR ''.'' \<and> d = CHR '' '' then [] # split_dot_space cs
      else cons_first c (split_dot_space (d # cs)))"

text \<open>\<open>s.split('\n')\<close>, in the same way for the one-character separator.\<close>

fun split_newline :: "string \<Rightarrow> string list" where
  "split_newline [] = [[]]"
| "split_newline (c # cs) =
     (if c = CHR 0x0A then [] # split_newline cs
      else cons_first c (split_newline cs))"

section \<open>Feature matching\<close>

text \<open>
  \<open>fuzz.partial_ratio\<close> belongs to the fuzzywuzzy library, not to this program: it is a
  parameter \<open>partial_ratio\<close> of every definition that scores, and nothing is assumed
  about the integers it returns.

  The dictionary \<open>matches\<close> is an association list in insertion order, as a Python \<open>dict\<close>
  keeps it: assigning to a key that is present replaces its value in place, assigning to
  a new key appends it (\<open>AList.update\<close>).
\<close>

type_synonym scorer = "string \<Rightarrow> string \<Rightarrow> int"

record match_info =
  score :: int
  justification :: "string list"

type_synonym matches = "(string \<times> match_info) list"

definition no_sentence_found :: string where
  "no_sentence_found = ''No exact sentence found, but feature is present in the patent text.''"

definition relevant_sentences :: "scorer \<Rightarrow> string \<Rightarrow> string \<Rightarrow> string list" where
  "relevant_sentences partial_ratio feature patent_text =
     filter (\<lambda>s. partial_ratio (lower feature) (lower s) > 50) (split_dot_space patent_text)"

fun compare_features_loop ::
  "scorer \<Rightarrow> string \<Rightarrow> int \<Rightarrow> string list \<Rightarrow> matches \<Rightarrow> matches" where
  "compare_features_loop partial_ratio patent_text similarity_threshold [] matches = matches"
| "compare_features_loop partial_ratio patent_text similarity_threshold (feature # features) matches =
     (let score = partial_ratio (lower feature) (lower patent_text) in
      if score > similarity_threshold then
        (let relevant = relevant_sentences partial_ratio feature patent_text in
         if relevant \<noteq> [] then
           compare_features_loop partial_ratio patent_text similarity_threshold features
             (AList.update feature \<lparr>score = score, justification = take 3 relevant\<rparr> matches)
         else
           compare_features_loop partial_ratio patent_text similarity_threshold features
             (AList.update feature \<lparr>score = score, justification = [no_sentence_found]\<rparr> matches))
      else compare_features_loop partial_ratio patent_text similarity_threshold features matches)"

definition compare_features :: "scorer \<Rightarrow> string list \<Rightarrow> string \<Rightarrow> int \<Rightarrow> matches" where
  "compare_features partial_ratio features patent_text similarity_threshold =
     compare_features_loop partial_ratio patent_text similarity_threshold features []"

text \<open>The entry \<open>compare_features\<close> stores for a feature that passes the threshold.\<close>

definition feature_entry :: "scorer \<Rightarrow> string \<Rightarrow> string \<Rightarrow> match_info" where
  "feature_entry partial_ratio feature patent_text =
     \<lparr>score = partial_ratio (lower feature) (lower patent_text),
      justification =
        (if relevant_sentences partial_ratio feature patent_text \<noteq> []
         then take 3 (relevant_sentences partial_ratio feature patent_text)
         else [no_sentence_found])\<rparr>"

text \<open>
  Modelled from the spec: two texts are case variants of each other when they are equal
  up to case, that is when Python's \<open>str.casefold\<close> gives the same text for both.
  Neither \<open>casefold\<close> nor a comparison up to case occurs in the program; the notion is
  the one the spec's words "case-folded" and "case variant" name. Below 256 \<open>casefold\<close>
  is \<open>lower\<close> except that the sharp s (223) becomes \<open>ss\<close>; the micro sign (181) folds to
  a code point above 255 that no other character below 256 folds to, so leaving it alone
  does not change which texts have the same fold. Thus \<open>STRASSE\<close>, which is what
  \<open>upper\<close> makes of the word written with a sharp s, is a case variant of that word.
\<close>

definition casefold_char :: "char \<Rightarrow> string" where
  "casefold_char c = (if c = CHR 0xDF then ''ss'' else [lower_char c])"

definition casefold :: "string \<Rightarrow> string" where
  "casefold s = concat (map casefold_char s)"

definition case_variant :: "string \<Rightarrow> string \<Rightarrow> bool" where
  "case_variant s s' = (casefold s = casefold s')"

text \<open>
  A scorer to run the definitions on concrete inputs: 100 when the shorter text occurs in
  the longer one, 0 otherwise and for an empty text.
\<close>

definition containment_ratio :: scorer where
  "containment_ratio a b =
     (if a \<noteq> [] \<and> b \<noteq> [] \<and> (sublist a b \<or> sublist b a) then 100 else 0)"

section \<open>The outside world and the trace of effects\<close>

text \<open>
  A Python exception is a value \<open>Exception msg\<close>, where \<open>msg\<close> is what \<open>str(e)\<close> gives;
  a computation that may raise returns \<open>exn + 'a\<close> (\<open>Inl\<close> the exception) together with
  the trace of the effects it performed. Only subclasses of \<open>Exception\<close> are modelled,
  the ones an \<open>except Exception\<close> clause catches.

  The search provider and the web are parameters, collected in a record \<open>world\<close>:
  \<^item> \<open>serpapi params\<close> is \<open>GoogleSearch(params).get_dict()\<close>, reduced to the value under
    the key \<open>organic_results\<close> (\<open>None\<close> when the key is absent);
  \<^item> \<open>fetch url headers\<close> is \<open>requests.get(url, headers=headers)\<close> followed by the
    \<open>BeautifulSoup\<close> parse and the three \<open>soup.find\<close> calls: the attributes of the
    \<open>meta\<close> tag named \<open>DC.description\<close>, the text of the \<open>div\<close> of class
    \<open>description\<close> and the text of the \<open>section\<close> with \<open>itemprop="claims"\<close>, each
    \<open>None\<close> when the page has no such element.
  Streamlit calls are recorded as events and do not raise.
\<close>

datatype exn = Exception string

type_synonym patent = "string \<rightharpoonup> string"

record soup =
  meta_dc_description :: "(string \<rightharpoonup> string) option"
  div_description :: "string option"
  section_claims :: "string option"

record world =
  serpapi :: "(string \<times> string) list \<Rightarrow> exn + patent list option"
  fetch :: "string \<Rightarrow> (string \<times> string) list \<Rightarrow> exn + soup"

datatype event =
    ApiSearch "(string \<times> string) list"
  | HttpGet string "(string \<times> string) list"
  | StError string
  | StWarning string
  | StSuccess nat int
  | StHeader string
  | StProgressNew
  | StEmptyNew
  | StatusText nat int
  | ProgressValue nat int
  | ProgressEmpty
  | StatusEmpty
  | StDownloadButton string string string string

type_synonym trace = "event list"

text \<open>\<open>try: body except Exception as e: handler\<close>.\<close>

definition try_except ::
  "(exn + 'a) \<times> trace \<Rightarrow> (string \<Rightarrow> trace \<Rightarrow> (exn + 'a) \<times> trace) \<Rightarrow> (exn + 'a) \<times> trace" where
  "try_except body handler =
     (case body of
        (Inr v, tr) \<Rightarrow> (Inr v, tr)
      | (Inl (Exception e), tr) \<Rightarrow> handler e tr)"

definition dict_get :: "(string \<rightharpoonup> string) \<Rightarrow> string \<Rightarrow> string \<Rightarrow> string" where
  "dict_get d k dflt = (case d k of Some v \<Rightarrow> v | None \<Rightarrow> dflt)"

text \<open>The projections of a trace onto the network: the pages requested, the searches sent.\<close>

fun fetched_urls :: "trace \<Rightarrow> string list" where
  "fetched_urls [] = []"
| "fetched_urls (HttpGet url headers # tr) = url # fetched_urls tr"
| "fetched_urls (e # tr) = fetched_urls tr"

fun is_network :: "event \<Rightarrow> bool" where
  "is_network (ApiSearch params) = True"
| "is_network (HttpGet url headers) = True"
| "is_network e = False"

section \<open>Result retrieval\<close>

definition search_params :: "string \<Rightarrow> string \<Rightarrow> (string \<times> string) list" where
  "search_params query api_key =
     [(''q'', query @ '' site:patents.google.com''),
      (''location'', ''United States''),
      (''api_key'', api_key)]"

definition get_patent_results ::
  "world \<Rightarrow> string \<Rightarrow> string \<Rightarrow> trace \<Rightarrow> (exn + patent list) \<times> trace" where
  "get_patent_results w query api_key tr =
     try_except
       (case serpapi w (search_params query api_key) of
          Inl e \<Rightarrow> (Inl e, tr @ [ApiSearch (search_params query api_key)])
        | Inr results \<Rightarrow>
            (Inr (case results of Some organic_results \<Rightarrow> organic_results | None \<Rightarrow> []),
             tr @ [ApiSearch (search_params query api_key)]))
       (\<lambda>e tr'. (Inr [], tr' @ [StError (''Error in API search: '' @ e)]))"

section \<open>Document fetch and extraction\<close>

definition no_description :: string where
  "no_description = ''No detailed description available.''"

definition key_error :: "string \<Rightarrow> exn" where
  "key_error k = Exception ([CHR 0x27] @ k @ [CHR 0x27])"

definition user_agent :: "(string \<times> string) list" where
  "user_agent = [(''User-Agent'', ''Mozilla/5.0'')]"

text \<open>
  \<open>abstract_tag["content"] if abstract_tag else ""\<close>: a tag without the attribute
  raises \<open>KeyError('content')\<close>.
\<close>

definition extract_abstract :: "soup \<Rightarrow> exn + string" where
  "extract_abstract soup =
     (case meta_dc_description soup of
        None \<Rightarrow> Inr []
      | Some abstract_tag \<Rightarrow>
          (case abstract_tag ''content'' of
             None \<Rightarrow> Inl (key_error ''content'')
           | Some content \<Rightarrow> Inr content))"

definition extract_description :: "soup \<Rightarrow> string" where
  "extract_description soup =
     (case div_description soup of Some text \<Rightarrow> strip text | None \<Rightarrow> [])"

definition extract_claims :: "soup \<Rightarrow> string" where
  "extract_claims soup =
     (case section_claims soup of Some text \<Rightarrow> strip text | None \<Rightarrow> [])"

definition combine_sections :: "string \<Rightarrow> string \<Rightarrow> string \<Rightarrow> string" where
  "combine_sections abstract description claims =
     abstract @ [CHR 0x0A, CHR 0x0A] @ description @ [CHR 0x0A, CHR 0x0A] @ claims"

definition scrape_body :: "world \<Rightarrow> string \<Rightarrow> trace \<Rightarrow> (exn + string) \<times> trace" where
  "scrape_body w url tr =
     (let headers = user_agent;
          tr1 = tr @ [HttpGet url headers] in
      case fetch w url headers of
        Inl e \<Rightarrow> (Inl e, tr1)
      | Inr soup \<Rightarrow>
          (case extract_abstract soup of
             Inl e \<Rightarrow> (Inl e, tr1)
           | Inr abstract \<Rightarrow>
               (let description = extract_description soup;
                    claims = extract_claims soup;
                    full_text = combine_sections abstract description claims
                in (Inr (if strip full_text \<noteq> [] then full_text else no_description), tr1))))"

definition scrape_patent_details ::
  "world \<Rightarrow> string \<Rightarrow> trace \<Rightarrow> (exn + string) \<times> trace" where
  "scrape_patent_details w url tr =
     try_except (scrape_body w url tr)
       (\<lambda>e tr'. (Inr (''Error scraping patent details: '' @ e), tr'))"

section \<open>Analysis of the candidates\<close>

text \<open>\<open>patents[:max_patents]\<close>: a negative bound counts from the end of the list.\<close>

definition slice_to :: "'a list \<Rightarrow> int \<Rightarrow> 'a list" where
  "slice_to xs m = (if 0 \<le> m then take (nat m) xs else take (nat (int (length xs) + m)) xs)"

type_synonym matched_patent = "string \<times> string \<times> matches"

text \<open>
  The body of the \<open>for\<close> loop over \<open>enumerate(patents[:max_patents])\<close>; \<open>i\<close> is the index
  of the candidate at the head of the list and \<open>n_total\<close> is
  \<open>min(len(patents), max_patents)\<close>. The status line and the progress bar receive
  \<open>i + 1\<close> and \<open>n_total\<close>, recorded as a pair; for a bound \<open>max_patents \<ge> 0\<close>, which the
  slider (5 to 20) guarantees, the quotient lies between 0 and 1 as the widget requires.
\<close>

fun search_loop ::
  "world \<Rightarrow> scorer \<Rightarrow> string list \<Rightarrow> int \<Rightarrow> int \<Rightarrow> int \<Rightarrow> nat \<Rightarrow> patent list \<Rightarrow>
   matched_patent list \<Rightarrow> trace \<Rightarrow> (exn + matched_patent list) \<times> trace" where
  "search_loop w partial_ratio features similarity_threshold min_feature_matches n_total i []
     best_patents tr = (Inr best_patents, tr)"
| "search_loop w partial_ratio features similarity_threshold min_feature_matches n_total i
     (patent # rest) best_patents tr =
     (let tr1 = tr @ [StatusText (i + 1) n_total, ProgressValue (i + 1) n_total];
          title = dict_get patent ''title'' ''Untitled Patent'';
          link = dict_get patent ''link'' [] in
      if link = [] then
        search_loop w partial_ratio features similarity_threshold min_feature_matches n_total
          (i + 1) rest best_patents tr1
      else
        (case scrape_patent_details w link tr1 of
           (Inl e, tr2) \<Rightarrow> (Inl e, tr2)
         | (Inr patent_text, tr2) \<Rightarrow>
             (let matches = compare_features partial_ratio features patent_text similarity_threshold in
              if int (length matches) \<ge> min_feature_matches then
                search_loop w partial_ratio features similarity_threshold min_feature_matches
                  n_total (i + 1) rest (best_patents @ [(title, link, matches)]) tr2
              else
                search_loop w partial_ratio features similarity_threshold min_feature_matches
                  n_total (i + 1) rest best_patents tr2)))"

definition search_best_matching_patents ::
  "world \<Rightarrow> scorer \<Rightarrow> string \<Rightarrow> string list \<Rightarrow> string \<Rightarrow> int \<Rightarrow> int \<Rightarrow> int \<Rightarrow> trace \<Rightarrow>
   (exn + matched_patent list) \<times> trace" where
  "search_best_matching_patents w partial_ratio new_invention features api_key
     similarity_threshold min_feature_matches max_patents tr =
     (let query = new_invention in
      case get_patent_results w query api_key tr of
        (Inl e, tr1) \<Rightarrow> (Inl e, tr1)
      | (Inr patents, tr1) \<Rightarrow>
          (case search_loop w partial_ratio features similarity_threshold min_feature_matches
                  (min (int (length patents)) max_patents) 0 (slice_to patents max_patents) []
                  (tr1 @ [StProgressNew, StEmptyNew]) of
             (Inl e, tr2) \<Rightarrow> (Inl e, tr2)
           | (Inr best_patents, tr2) \<Rightarrow> (Inr best_patents, tr2 @ [ProgressEmpty, StatusEmpty])))"

text \<open>
  Names for what the loop reads from a candidate, for the text the scraper returns for a
  link, and for the analysis of one candidate.
\<close>

abbreviation patent_title :: "patent \<Rightarrow> string" where
  "patent_title patent \<equiv> dict_get patent ''title'' ''Untitled Patent''"

abbreviation patent_link :: "patent \<Rightarrow> string" where
  "patent_link patent \<equiv> dict_get patent ''link'' []"

definition document_text :: "world \<Rightarrow> string \<Rightarrow> string" where
  "document_text w url =
     (case fst (scrape_patent_details w url []) of Inr text \<Rightarrow> text | Inl e \<Rightarrow> [])"

definition analysed :: "world \<Rightarrow> scorer \<Rightarrow> string list \<Rightarrow> int \<Rightarrow> patent \<Rightarrow> matched_patent" where
  "analysed w partial_ratio features similarity_threshold patent =
     (patent_title patent, patent_link patent,
      compare_features partial_ratio features (document_text w (patent_link patent))
        similarity_threshold)"

section \<open>The JSON export\<close>

text \<open>
  The value handed to \<open>json.dumps\<close>: a list with one dictionary per retained patent,
  whose \<open>matches\<close> entry is the dictionary built by \<open>compare_features\<close>. Dictionaries
  are association lists in insertion order, the order \<open>json.dumps\<close> writes them in.
\<close>

datatype json =
    JNull
  | JBool bool
  | JInt int
  | JStr string
  | JArr "json list"
  | JObj "(string \<times> json) list"

definition match_info_json :: "match_info \<Rightarrow> json" where
  "match_info_json e =
     JObj [(''score'', JInt (score e)), (''justification'', JArr (map JStr (justification e)))]"

definition matches_json :: "matches \<Rightarrow> json" where
  "matches_json m = JObj (map (\<lambda>(feature, e). (feature, match_info_json e)) m)"

definition export_value :: "matched_patent list \<Rightarrow> json" where
  "export_value best_patents =
     JArr (map (\<lambda>(title, link, matches).
                  JObj [(''patent_title'', JStr title),
                        (''patent_link'', JStr link),
                        (''matches'', matches_json matches)]) best_patents)"

text \<open>
  Modelled from the spec: \<open>json.dumps(value, indent=2)\<close> of the Python standard library,
  which is not part of this repository. The spec fixes the export as a JSON array of
  objects, pretty-printed with 2-space indentation; the model follows the library's
  encoder for that format: an empty container is \<open>[]\<close> or \<open>{}\<close>, a non-empty one puts
  every item on a line of its own, indented by two blanks per nesting level, items
  separated by a comma, a key and its value by a colon and a blank. Strings are written
  between double quotes with \<open>ensure_ascii\<close>: the quote and the backslash are escaped by
  a backslash, backspace, form feed, line feed, carriage return and tab are written
  \<open>\b \f \n \r \t\<close>, and any other character outside the printable range 32..126 is
  written \<open>\u00XX\<close> with lower-case hexadecimal digits.
\<close>

definition hex_digit :: "nat \<Rightarrow> char" where
  "hex_digit n = (if n < 10 then char_of (48 + n) else char_of (87 + n))"

definition escape_char :: "char \<Rightarrow> string" where
  "escape_char c =
     (if c = CHR 0x22 then [CHR 0x5C, CHR 0x22]
      else if c = CHR 0x5C then [CHR 0x5C, CHR 0x5C]
      else if c = CHR 0x0A then [CHR 0x5C, CHR ''n'']
      else if c = CHR 0x0D then [CHR 0x5C, CHR ''r'']
      else if c = CHR 0x09 then [CHR 0x5C, CHR ''t'']
      else if c = CHR 0x08 then [CHR 0x5C, CHR ''b'']
      else if c = CHR 0x0C then [CHR 0x5C, CHR ''f'']
      else if (32::nat) \<le> of_char c \<and> of_char c \<le> (126::nat) then [c]
      else [CHR 0x5C, CHR ''u'', CHR ''0'', CHR ''0'',
            hex_digit (of_char c div 16), hex_digit (of_char c mod 16)])"

definition dumps_str :: "string \<Rightarrow> string" where
  "dumps_str s = [CHR 0x22] @ concat (map escape_char s) @ [CHR 0x22]"

fun dumps_nat :: "nat \<Rightarrow> string" where
  "dumps_nat n =
     (if n < 10 then [char_of (48 + n)]
      else dumps_nat (n div 10) @ [char_of (48 + n mod 10)])"

declare dumps_nat.simps [simp del]

definition dumps_int :: "int \<Rightarrow> string" where
  "dumps_int k = (if k < 0 then CHR ''-'' # dumps_nat (nat (- k)) else dumps_nat (nat k))"

definition newline_indent :: "nat \<Rightarrow> string" where
  "newline_indent level = CHR 0x0A # replicate (2 * level) CHR '' ''"

fun join :: "string \<Rightarrow> string list \<Rightarrow> string" where
  "join sep [] = []"
| "join sep [x] = x"
| "join sep (x # y # ys) = x @ sep @ join sep (y # ys)"

fun dumps_indent :: "nat \<Rightarrow> json \<Rightarrow> string" where
  "dumps_indent level JNull = ''null''"
| "dumps_indent level (JBool b) = (if b then ''true'' else ''false'')"
| "dumps_indent level (JInt k) = dumps_int k"
| "dumps_indent level (JStr s) = dumps_str s"
| "dumps_indent level (JArr xs) =
     (if xs = [] then ''[]''
      else ''['' @ newline_indent (level + 1)
           @ join ('','' @ newline_indent (level + 1)) (map (dumps_indent (level + 1)) xs)
           @ newline_indent level @ '']'')"
| "dumps_indent level (JObj kvs) =
     (if kvs = [] then ''{}''
      else ''{'' @ newline_indent (level + 1)
           @ join ('','' @ newline_indent (level + 1))
               (map (\<lambda>(k, v). dumps_str k @ '': '' @ dumps_indent (level + 1) v) kvs)
           @ newline_indent level @ ''}'')"

definition dumps :: "json \<Rightarrow> string" where
  "dumps v = dumps_indent 0 v"

definition result_json :: "matched_patent list \<Rightarrow> string" where
  "result_json best_patents = dumps (export_value best_patents)"

text \<open>
  Modelled from the spec: \<open>json.loads\<close> of the Python standard library, which is not
  part of this repository and which the program never calls; the spec's round trip parses
  the export back with it. The model follows the library's decoder on the part of JSON
  the export uses: blanks, tabs, line feeds and carriage returns are skipped between
  tokens; a string ends at the first unescaped double quote, a backslash is followed by
  one of \<open>" \ / b f n r t\<close> or by \<open>u\<close> and four hexadecimal digits, and a control
  character inside a string is refused; a number is an optional minus sign and either
  \<open>0\<close> or a digit other than \<open>0\<close> followed by digits; an object becomes a dictionary,
  so a key that occurs again replaces the earlier value. Numbers with a fraction or an
  exponent and \<open>\u\<close> escapes above 255 lie outside the model and give \<open>None\<close>, as
  does every text that is not JSON. The recursion on nested values is bounded by fuel,
  one unit per value or item; \<open>loads\<close> supplies more than the length of the text.
\<close>

definition is_ws :: "char \<Rightarrow> bool" where
  "is_ws c = (c = CHR '' '' \<or> c = CHR 0x09 \<or> c = CHR 0x0A \<or> c = CHR 0x0D)"

definition skip_ws :: "string \<Rightarrow> string" where
  "skip_ws s = dropWhile is_ws s"

definition is_digit :: "char \<Rightarrow> bool" where
  "is_digit c = ((48::nat) \<le> of_char c \<and> of_char c \<le> (57::nat))"

definition hex_val :: "char \<Rightarrow> nat option" where
  "hex_val c =
     (if (48::nat) \<le> of_char c \<and> of_char c \<le> (57::nat) then Some (of_char c - 48)
      else if (97::nat) \<le> of_char c \<and> of_char c \<le> (102::nat) then Some (of_char c - 87)
      else if (65::nat) \<le> of_char c \<and> of_char c \<le> (70::nat) then Some (of_char c - 55)
      else None)"

definition unescape :: "char \<Rightarrow> char option" where
  "unescape e =
     (if e = CHR 0x22 then Some (CHR 0x22)
      else if e = CHR 0x5C then Some (CHR 0x5C)
      else if e = CHR ''/'' then Some (CHR ''/'')
      else if e = CHR ''b'' then Some (CHR 0x08)
      else if e = CHR ''f'' then Some (CHR 0x0C)
      else if e = CHR ''n'' then Some (CHR 0x0A)
      else if e = CHR ''r'' then Some (CHR 0x0D)
      else if e = CHR ''t'' then Some (CHR 0x09)
      else None)"

definition cons_result :: "'a \<Rightarrow> ('a list \<times> string) option \<Rightarrow> ('a list \<times> string) option" where
  "cons_result x r = (case r of None \<Rightarrow> None | Some (xs, rest) \<Rightarrow> Some (x # xs, rest))"

fun scan_string :: "string \<Rightarrow> (string \<times> string) option" where
  "scan_string [] = None"
| "scan_string (c # cs) =
     (if c = CHR 0x22 then Some ([], cs)
      else if c = CHR 0x5C then
        (case cs of
           [] \<Rightarrow> None
         | e # es \<Rightarrow>
             if e = CHR ''u'' then
               (case es of
                  h1 # h2 # h3 # h4 # rest \<Rightarrow>
                    (case (hex_val h1, hex_val h2, hex_val h3, hex_val h4) of
                       (Some a, Some b, Some c, Some d) \<Rightarrow>
                         if a = 0 \<and> b = 0 then cons_result (char_of (16 * c + d)) (scan_string rest)
                         else None
                     | _ \<Rightarrow> None)
                | _ \<Rightarrow> None)
             else
               (case unescape e of
                  None \<Rightarrow> None
                | Some d \<Rightarrow> cons_result d (scan_string es)))
      else if of_char c < (32::nat) then None
      else cons_result c (scan_string cs))"

definition digits_value :: "string \<Rightarrow> nat" where
  "digits_value ds = foldl (\<lambda>n c. 10 * n + (of_char c - 48)) 0 ds"

definition scan_nat :: "string \<Rightarrow> (nat \<times> string) option" where
  "scan_nat s =
     (case s of
        [] \<Rightarrow> None
      | c # cs \<Rightarrow>
          if c = CHR ''0'' then Some (0, cs)
          else if is_digit c then Some (digits_value (takeWhile is_digit s), dropWhile is_digit s)
          else None)"

definition float_follows :: "string \<Rightarrow> bool" where
  "float_follows s =
     (case s of [] \<Rightarrow> False | c # cs \<Rightarrow> c = CHR ''.'' \<or> c = CHR ''e'' \<or> c = CHR ''E'')"

definition scan_int :: "string \<Rightarrow> (int \<times> string) option" where
  "scan_int s =
     (case (case s of
              [] \<Rightarrow> None
            | c # cs \<Rightarrow>
                if c = CHR ''-'' then map_option (\<lambda>(n, rest). (- int n, rest)) (scan_nat cs)
                else map_option (\<lambda>(n, rest). (int n, rest)) (scan_nat s)) of
        None \<Rightarrow> None
      | Some (k, rest) \<Rightarrow> if float_follows rest then None else Some (k, rest))"

fun dict_of :: "(string \<times> json) list \<Rightarrow> (string \<times> json) list \<Rightarrow> (string \<times> json) list" where
  "dict_of d [] = d"
| "dict_of d ((k, v) # kvs) = dict_of (AList.update k v d) kvs"

fun parse_value :: "nat \<Rightarrow> string \<Rightarrow> (json \<times> string) option"
  and parse_items :: "nat \<Rightarrow> string \<Rightarrow> (json list \<times> string) option"
  and parse_pairs :: "nat \<Rightarrow> string \<Rightarrow> ((string \<times> json) list \<times> string) option" where
  "parse_value 0 s = None"
| "parse_value (Suc n) s =
     (case s of
        [] \<Rightarrow> None
      | c # cs \<Rightarrow>
          if c = CHR 0x22 then
            (case scan_string cs of None \<Rightarrow> None | Some (str, rest) \<Rightarrow> Some (JStr str, rest))
          else if c = CHR ''{'' then
            (case skip_ws cs of
               [] \<Rightarrow> None
             | d # ds \<Rightarrow>
                 if d = CHR ''}'' then Some (JObj [], ds)
                 else (case parse_pairs n (d # ds) of
                         None \<Rightarrow> None
                       | Some (kvs, rest) \<Rightarrow> Some (JObj (dict_of [] kvs), rest)))
          else if c = CHR ''['' then
            (case skip_ws cs of
               [] \<Rightarrow> None
             | d # ds \<Rightarrow>
                 if d = CHR '']'' then Some (JArr [], ds)
                 else (case parse_items n (d # ds) of
                         None \<Rightarrow> None
                       | Some (vs, rest) \<Rightarrow> Some (JArr vs, rest)))
          else if prefix ''null'' s then Some (JNull, drop 4 s)
          else if prefix ''true'' s then Some (JBool True, drop 4 s)
          else if prefix ''false'' s then Some (JBool False, drop 5 s)
          else (case scan_int s of None \<Rightarrow> None | Some (k, rest) \<Rightarrow> Some (JInt k, rest)))"
| "parse_items 0 s = None"
| "parse_items (Suc n) s =
     (case parse_value n s of
        None \<Rightarrow> None
      | Some (v, rest) \<Rightarrow>
          (case skip_ws rest of
             [] \<Rightarrow> None
           | d # ds \<Rightarrow>
               if d = CHR '']'' then Some ([v], ds)
               else if d = CHR '','' then cons_result v (parse_items n (skip_ws ds))
               else None))"
| "parse_pairs 0 s = None"
| "parse_pairs (Suc n) s =
     (case s of
        [] \<Rightarrow> None
      | q # cs \<Rightarrow>
          if q = CHR 0x22 then
            (case scan_string cs of
               None \<Rightarrow> None
             | Some (k, rest) \<Rightarrow>
                 (case skip_ws rest of
                    [] \<Rightarrow> None
                  | d # ds \<Rightarrow>
                      if d = CHR '':'' then
                        (case parse_value n (skip_ws ds) of
                           None \<Rightarrow> None
                         | Some (v, rest') \<Rightarrow>
                             (case skip_ws rest' of
                                [] \<Rightarrow> None
                              | e # es \<Rightarrow>
                                  if e = CHR ''}'' then Some ([(k, v)], es)
                                  else if e = CHR '','' then
                                    cons_result (k, v) (parse_pairs n (skip_ws es))
                                  else None))
                      else None))
          else None)"

definition loads :: "string \<Rightarrow> json option" where
  "loads s =
     (case parse_value (Suc (length s)) (skip_ws s) of
        None \<Rightarrow> None
      | Some (v, rest) \<Rightarrow> if skip_ws rest = [] then Some v else None)"

text \<open>
  Reading the parsed export back into titles, links, scores and justification lists:
  what \<open>entry["patent_title"]\<close>, \<open>entry["matches"][feature]["score"]\<close> and so on give.
\<close>

fun import_strings :: "json list \<Rightarrow> string list option" where
  "import_strings [] = Some []"
| "import_strings (JStr s # js) = map_option (Cons s) (import_strings js)"
| "import_strings (j # js) = None"

definition import_match_info :: "json \<Rightarrow> match_info option" where
  "import_match_info j =
     (case j of
        JObj d \<Rightarrow>
          (case (map_of d ''score'', map_of d ''justification'') of
             (Some (JInt k), Some (JArr js)) \<Rightarrow>
               map_option (\<lambda>sentences. \<lparr>score = k, justification = sentences\<rparr>) (import_strings js)
           | _ \<Rightarrow> None)
      | _ \<Rightarrow> None)"

definition import_matches :: "json \<Rightarrow> matches option" where
  "import_matches j =
     (case j of
        JObj d \<Rightarrow> those (map (\<lambda>(feature, e). map_option (Pair feature) (import_match_info e)) d)
      | _ \<Rightarrow> None)"

definition import_patent :: "json \<Rightarrow> matched_patent option" where
  "import_patent j =
     (case j of
        JObj d \<Rightarrow>
          (case (map_of d ''patent_title'', map_of d ''patent_link'', map_of d ''matches'') of
             (Some (JStr title), Some (JStr link), Some m) \<Rightarrow>
               map_option (\<lambda>matches. (title, link, matches)) (import_matches m)
           | _ \<Rightarrow> None)
      | _ \<Rightarrow> None)"

definition import_value :: "json \<Rightarrow> matched_patent list option" where
  "import_value j = (case j of JArr ps \<Rightarrow> those (map import_patent ps) | _ \<Rightarrow> None)"

text \<open>
  Names used in the proof of the round trip: a value in which every dictionary has
  distinct keys, as every Python dictionary has; the texts that may follow a printed
  value; the characters a printed value may begin with; the text of one dictionary item.
\<close>

fun keys_distinct :: "json \<Rightarrow> bool" where
  "keys_distinct (JArr xs) = (\<forall>x \<in> set xs. keys_distinct x)"
| "keys_distinct (JObj kvs) = (distinct (map fst kvs) \<and> (\<forall>kv \<in> set kvs. keys_distinct (snd kv)))"
| "keys_distinct v = True"

definition ends_value :: "string \<Rightarrow> bool" where
  "ends_value rest = (rest = [] \<or> hd rest = CHR '','' \<or> hd rest = CHR 0x0A)"

definition starts_value :: "char \<Rightarrow> bool" where
  "starts_value c = (\<not> is_ws c \<and> c \<noteq> CHR '']'' \<and> c \<noteq> CHR ''}'' \<and> c \<noteq> CHR '','' \<and> c \<noteq> CHR '':'')"

abbreviation dumps_pair :: "nat \<Rightarrow> string \<times> json \<Rightarrow> string" where
  "dumps_pair m \<equiv> (\<lambda>(k, v). dumps_str k @ '': '' @ dumps_indent m v)"

section \<open>The form\<close>

text \<open>
  The block under \<open>if submit_button:\<close> is \<open>process_search\<close>, a function of the widget
  values of one run of the script; of what it displays, the messages, the header and the download
  button are recorded, and the tabs that render each patent are left out.
\<close>

definition parse_features :: "string \<Rightarrow> string list" where
  "parse_features text =
     map strip (filter (\<lambda>feature. strip feature \<noteq> []) (split_newline (strip text)))"

definition process_search ::
  "world \<Rightarrow> scorer \<Rightarrow> bool \<Rightarrow> string \<Rightarrow> string \<Rightarrow> string \<Rightarrow> int \<Rightarrow> int \<Rightarrow> int \<Rightarrow> trace \<Rightarrow>
   (exn + unit) \<times> trace" where
  "process_search w partial_ratio submit_button api_key new_invention features_text
     similarity_threshold min_feature_matches max_patents tr =
     (if submit_button then
        (if api_key = [] then
           (Inr (), tr @ [StError ''Please enter your SerpAPI key in the sidebar.''])
         else if new_invention = [] then
           (Inr (), tr @ [StError ''Please describe your invention.''])
         else if features_text = [] then
           (Inr (), tr @ [StError ''Please enter at least one feature.''])
         else
           (let features = parse_features features_text in
            if features = [] then
              (Inr (), tr @ [StError ''Please enter valid features (one per line).''])
            else
              (case search_best_matching_patents w partial_ratio new_invention features
                      api_key similarity_threshold min_feature_matches max_patents tr of
                 (Inl e, tr1) \<Rightarrow> (Inl e, tr1)
               | (Inr best_patents, tr1) \<Rightarrow>
                   (if best_patents = [] then
                      (Inr (), tr1 @ [StHeader ''Search Results'',
                         StWarning ''No patents found with enough feature matches. Try adjusting your search parameters.''])
                    else
                      (Inr (), tr1 @ [StHeader ''Search Results'',
                         StSuccess (length best_patents) min_feature_matches,
                         StDownloadButton ''Download Results as JSON'' (result_json best_patents)
                           ''patent_matches.json'' ''application/json''])))))
      else (Inr (), tr))"

section \<open>A sample run\<close>

text \<open>
  A provider that returns four candidates, the first without a link and the second
  without a title, and a web on which the first page has an abstract and a description,
  the second request fails and every other page is empty.
\<close>

definition demo_patents :: "patent list" where
  "demo_patents =
     [[''title'' \<mapsto> ''Unlinked''],
      [''title'' \<mapsto> ''Widget drive'', ''link'' \<mapsto> ''http://a''],
      [''link'' \<mapsto> ''http://b''],
      [''title'' \<mapsto> ''Late'', ''link'' \<mapsto> ''http://c'']]"

definition demo_soup :: soup where
  "demo_soup =
     \<lparr>meta_dc_description = Some [''content'' \<mapsto> ''A red widget with a blue gear attachment''],
      div_description = Some '' It turns. The Red Widget drives the gear.  '',
      section_claims = None\<rparr>"

definition empty_soup :: soup where
  "empty_soup = \<lparr>meta_dc_description = None, div_description = None, section_claims = None\<rparr>"

definition demo_world :: world where
  "demo_world =
     \<lparr>serpapi = (\<lambda>params. Inr (Some demo_patents)),
      fetch = (\<lambda>url headers.
        if url = ''http://a'' then Inr demo_soup
        else if url = ''http://b'' then Inl (Exception ''timed out'')
        else Inr empty_soup)\<rparr>"

definition demo_text :: string where
  "demo_text = ''It turns. It stops. It is. It was. Other''"

definition demo_entry :: match_info where
  "demo_entry = \<lparr>score = 100, justification = [''It turns'', ''It stops'', ''It is'']\<rparr>"

definition demo_features :: "string list" where
  "demo_features = [''red widget'', ''blue gear'']"

definition demo_matches :: matches where
  "demo_matches =
     [(''red widget'',
       \<lparr>score = 100,
        justification =
          [''A red widget with a blue gear attachment'' @ [CHR 0x0A, CHR 0x0A] @ ''It turns'',
           ''The Red Widget drives the gear.'' @ [CHR 0x0A, CHR 0x0A]]\<rparr>),
      (''blue gear'',
       \<lparr>score = 100,
        justification =
          [''A red widget with a blue gear attachment'' @ [CHR 0x0A, CHR 0x0A] @ ''It turns'']\<rparr>)]"

definition blank_lines :: string where
  "blank_lines = [CHR '' '', CHR 0x0A, CHR 0x09, CHR '' '', CHR 0x0A, CHR '' '']"

definition demo_best :: "matched_patent list" where
  "demo_best = [(''Widget drive'', ''http://a'', demo_matches)]"

definition strasse_sharp_s :: string where
  "strasse_sharp_s = ''stra'' @ [CHR 0xDF] @ ''e''"

definition failing_world :: world where
  "failing_world =
     \<lparr>serpapi = (\<lambda>params. Inl (Exception ''Invalid API key'')),
      fetch = (\<lambda>url headers. Inl (Exception ''unreachable''))\<rparr>"

section \<open>Properties of the string functions\<close>

lemma lower_char_lower_char: "lower_char (lower_char c) = lower_char c"
proof -
  have "of_char c < (256::nat)" by simp
  then show ?thesis
    by (auto simp: lower_char_def)
qed

lemma lower_lower: "lower (lower s) = lower s"
  by (simp add: lower_def lower_char_lower_char)

lemma casefold_without_sharp_s: "CHR 0xDF \<notin> set s \<Longrightarrow> casefold s = lower s"
  by (induction s) (auto simp: casefold_def casefold_char_def lower_def)

lemma case_variant_lower:
  "case_variant s s' \<Longrightarrow> CHR 0xDF \<notin> set s \<Longrightarrow> CHR 0xDF \<notin> set s' \<Longrightarrow> lower s = lower s'"
  by (simp add: case_variant_def casefold_without_sharp_s)

lemma lower_char_sharp_s: "lower_char c = CHR 0xDF \<longleftrightarrow> c = CHR 0xDF"
proof
  assume a: "lower_char c = CHR 0xDF"
  have d: "of_char (CHR 0xDF) = (223::nat)" by simp
  show "c = CHR 0xDF"
  proof (rule ccontr)
    assume n: "c \<noteq> CHR 0xDF"
    then have "lower_char c \<noteq> c" using a by simp
    then have f: "lower_char c = char_of (of_char c + (32::nat))"
      and r: "(65::nat) \<le> of_char c \<and> of_char c \<le> (90::nat)
        \<or> (192::nat) \<le> of_char c \<and> of_char c \<le> (222::nat) \<and> of_char c \<noteq> (215::nat)"
      by (auto simp: lower_char_def split: if_splits)
    have "of_char (lower_char c) = (of_char c + 32) mod (256::nat)"
      by (simp add: f)
    then have "(of_char c + 32) mod (256::nat) = 223" using a d by simp
    then show False using r by auto
  qed
next
  assume "c = CHR 0xDF"
  then show "lower_char c = CHR 0xDF" by (simp add: lower_char_def)
qed

lemma casefold_lower:
  "casefold s = concat (map (\<lambda>c. if c = CHR 0xDF then ''ss'' else [c]) (lower s))"
  by (induction s)
     (simp_all add: casefold_def casefold_char_def lower_def lower_char_sharp_s
        lower_char_lower_char)

lemma same_lower_case_variant: "lower s = lower s' \<Longrightarrow> case_variant s s'"
  by (simp add: case_variant_def casefold_lower)

lemma case_variant_lower_self: "case_variant s (lower s)"
  by (rule same_lower_case_variant) (simp add: lower_lower)

lemma strip_Nil [simp]: "strip [] = []"
  by (simp add: strip_def)

text \<open>
  The two splits cut where Python's \<open>str.split\<close> cuts: the pieces joined by the
  separator give the text back, and no piece of \<open>split_dot_space\<close> contains the
  separator.
\<close>

lemma cons_first_nonempty: "cons_first c ws \<noteq> []"
  by (cases ws) simp_all

lemma split_dot_space_nonempty: "split_dot_space s \<noteq> []"
  by (induction s rule: split_dot_space.induct) (simp_all add: cons_first_nonempty)

lemma split_newline_nonempty: "split_newline s \<noteq> []"
  by (induction s) (simp_all add: cons_first_nonempty)

lemma join_cons_first: "ws \<noteq> [] \<Longrightarrow> join sep (cons_first c ws) = c # join sep ws"
proof (cases ws)
  case Nil
  assume "ws \<noteq> []"
  with Nil show ?thesis by simp
next
  case (Cons w ws')
  then show ?thesis by (cases ws') simp_all
qed

lemma join_Cons_nonempty: "ws \<noteq> [] \<Longrightarrow> join sep (w # ws) = w @ sep @ join sep ws"
  by (cases ws) simp_all

lemma join_split_dot_space: "join ''. '' (split_dot_space s) = s"
  by (induction s rule: split_dot_space.induct)
     (simp_all add: join_cons_first join_Cons_nonempty split_dot_space_nonempty)

lemma join_split_newline: "join [CHR 0x0A] (split_newline s) = s"
  by (induction s)
     (simp_all add: join_cons_first join_Cons_nonempty split_newline_nonempty)

lemma hd_cons_first: "ws \<noteq> [] \<Longrightarrow> hd (cons_first c ws) = c # hd ws"
  by (cases ws) simp_all

lemma first_piece_prefix: "prefix (hd (split_dot_space s)) s"
  by (induction s rule: split_dot_space.induct)
     (simp_all add: hd_cons_first split_dot_space_nonempty)

lemma set_cons_first:
  "ws \<noteq> [] \<Longrightarrow> set (cons_first c ws) = insert (c # hd ws) (set (tl ws))"
  by (cases ws) simp_all

lemma pieces_without_dot_space: "w \<in> set (split_dot_space s) \<Longrightarrow> \<not> sublist ''. '' w"
proof (induction s arbitrary: w rule: split_dot_space.induct)
  case 1
  then show ?case by simp
next
  case (2 c)
  then show ?case by (auto simp: sublist_Cons_right)
next
  case (3 c d cs)
  show ?case
  proof (cases "c = CHR ''.'' \<and> d = CHR '' ''")
    case True
    then show ?thesis using 3 by auto
  next
    case False
    let ?ws = "split_dot_space (d # cs)"
    have ne: "?ws \<noteq> []" by (rule split_dot_space_nonempty)
    have w: "w = c # hd ?ws \<or> w \<in> set (tl ?ws)"
      using 3(3) False by (simp add: set_cons_first [OF ne])
    have ih: "\<And>v. v \<in> set ?ws \<Longrightarrow> \<not> sublist ''. '' v"
      using 3(2) False by blast
    show ?thesis
    proof (cases "w = c # hd ?ws")
      case True
      have h: "\<not> sublist ''. '' (hd ?ws)" using ih [of "hd ?ws"] ne by simp
      have "\<not> prefix ''. '' (c # hd ?ws)"
      proof
        assume p: "prefix ''. '' (c # hd ?ws)"
        then have c: "c = CHR ''.''" and "prefix '' '' (hd ?ws)" by simp_all
        then obtain r where "hd ?ws = CHR '' '' # r" by (cases "hd ?ws") auto
        then have "d = CHR '' ''" using first_piece_prefix [of "d # cs"] by simp
        then show False using False c by simp
      qed
      then show ?thesis using h True by (simp add: sublist_Cons_right)
    next
      case False
      then have "w \<in> set (tl ?ws)" using w by simp
      then have "w \<in> set ?ws" using ne by (metis list.set_sel(2))
      then show ?thesis by (rule ih)
    qed
  qed
qed

section \<open>Properties of feature matching\<close>

lemma map_of_compare_features_loop:
  "map_of (compare_features_loop pr t T fs m) k =
     (if k \<in> set fs \<and> T < pr (lower k) (lower t) then Some (feature_entry pr k t)
      else map_of m k)"
  by (induction fs arbitrary: m) (auto simp: Let_def update_conv' feature_entry_def)

lemma distinct_compare_features_loop:
  "distinct (map fst m) \<Longrightarrow> distinct (map fst (compare_features_loop pr t T fs m))"
  by (induction fs arbitrary: m) (auto simp: Let_def distinct_update)

lemma keys_compare_features_loop:
  "fst ` set (compare_features_loop pr t T fs m) =
     fst ` set m \<union> {f \<in> set fs. T < pr (lower f) (lower t)}"
  by (induction fs arbitrary: m) (auto simp: Let_def dom_update)

lemma map_of_compare_features:
  "map_of (compare_features pr fs t T) k =
     (if k \<in> set fs \<and> T < pr (lower k) (lower t) then Some (feature_entry pr k t) else None)"
  by (simp add: compare_features_def map_of_compare_features_loop)

lemma distinct_compare_features: "distinct (map fst (compare_features pr fs t T))"
  by (simp add: compare_features_def distinct_compare_features_loop)

lemma keys_compare_features:
  "fst ` set (compare_features pr fs t T) = {f \<in> set fs. T < pr (lower f) (lower t)}"
  by (simp add: compare_features_def keys_compare_features_loop)

lemma entry_compare_features:
  "(k, e) \<in> set (compare_features pr fs t T) \<longleftrightarrow>
     k \<in> set fs \<and> T < pr (lower k) (lower t) \<and> e = feature_entry pr k t"
proof -
  have "(k, e) \<in> set (compare_features pr fs t T) \<longleftrightarrow>
          map_of (compare_features pr fs t T) k = Some e"
    using distinct_compare_features by (metis map_of_eq_Some_iff)
  then show ?thesis
    by (auto simp: map_of_compare_features)
qed


text \<open>
  C1. A feature is a key of the mapping \<open>compare_features\<close> returns exactly when it is one
  of the submitted features and its score against the whole document text is strictly
  greater than the threshold; the score stored under the key is that score. A score equal
  to the threshold gives no entry, and no key comes from anywhere but the feature list.
\<close>

theorem compare_features_key_iff_score_above_threshold:
  "(f \<in> fst ` set (compare_features partial_ratio features patent_text similarity_threshold))
     = (f \<in> set features \<and> partial_ratio (lower f) (lower patent_text) > similarity_threshold)
   \<and> map_option score
        (map_of (compare_features partial_ratio features patent_text similarity_threshold) f)
     = (if f \<in> set features \<and> partial_ratio (lower f) (lower patent_text) > similarity_threshold
        then Some (partial_ratio (lower f) (lower patent_text)) else None)"
  by (simp add: keys_compare_features map_of_compare_features feature_entry_def)

text \<open>
  C3. The justification of a retained feature is made of the pieces of the document text
  between the occurrences of \<open>". "\<close> whose score against the feature is strictly above
  50, whatever the configured threshold: the first three of them in document order, or
  the fixed placeholder alone when there is none. It has between one and three elements.
\<close>

theorem justification_first_three_sentences_above_50:
  "(feature, e) \<in> set (compare_features partial_ratio features patent_text similarity_threshold) \<Longrightarrow>
     justification e =
       (if filter (\<lambda>s. partial_ratio (lower feature) (lower s) > 50) (split_dot_space patent_text) = []
        then [no_sentence_found]
        else take 3 (filter (\<lambda>s. partial_ratio (lower feature) (lower s) > 50)
                       (split_dot_space patent_text)))
     \<and> 1 \<le> length (justification e) \<and> length (justification e) \<le> 3"
  by (auto simp: entry_compare_features feature_entry_def relevant_sentences_def Suc_le_eq)

lemma demo_compare_features:
  "compare_features containment_ratio [''It'', ''zz''] demo_text 40 = [(''It'', demo_entry)]"
  by code_simp

theorem justification_first_three_sentences_above_50_witness:
  "(''It'', demo_entry) \<in> set (compare_features containment_ratio [''It'', ''zz''] demo_text 40)
   \<and> justification demo_entry = [''It turns'', ''It stops'', ''It is'']
   \<and> justification demo_entry =
       (if filter (\<lambda>s. containment_ratio (lower ''It'') (lower s) > 50) (split_dot_space demo_text) = []
        then [no_sentence_found]
        else take 3 (filter (\<lambda>s. containment_ratio (lower ''It'') (lower s) > 50)
                       (split_dot_space demo_text)))
   \<and> 1 \<le> length (justification demo_entry) \<and> length (justification demo_entry) \<le> 3"
proof -
  have h: "(''It'', demo_entry) \<in> set (compare_features containment_ratio [''It'', ''zz''] demo_text 40)"
    by (simp add: demo_compare_features)
  have j: "justification demo_entry = [''It turns'', ''It stops'', ''It is'']"
    by (simp add: demo_entry_def)
  from h j justification_first_three_sentences_above_50 [OF h] show ?thesis
    by blast
qed

section \<open>Properties of retrieval, scraping and the candidate loop\<close>

lemma get_patent_results_returns:
  "\<exists>patents. get_patent_results w query key tr =
     (Inr patents,
      tr @ ApiSearch (search_params query key) #
        (case serpapi w (search_params query key) of
           Inl (Exception e) \<Rightarrow> [StError (''Error in API search: '' @ e)]
         | Inr r \<Rightarrow> []))"
  by (auto simp: get_patent_results_def try_except_def split: sum.splits exn.splits)

lemma scrape_body_trace: "snd (scrape_body w url tr) = tr @ [HttpGet url user_agent]"
  by (simp add: scrape_body_def Let_def split: sum.splits)

lemma scrape_body_value: "fst (scrape_body w url tr) = fst (scrape_body w url [])"
  by (simp add: scrape_body_def Let_def split: sum.splits)

lemma scrape_body_nonempty: "fst (scrape_body w url tr) \<noteq> Inr []"
  by (auto simp: scrape_body_def Let_def no_description_def split: sum.splits)

lemma scrape_patent_details_eq:
  "scrape_patent_details w url tr = (Inr (document_text w url), tr @ [HttpGet url user_agent])"
proof -
  obtain r t where b: "scrape_body w url tr = (r, t)" by (cases "scrape_body w url tr")
  obtain r0 t0 where b0: "scrape_body w url [] = (r0, t0)" by (cases "scrape_body w url []")
  have t: "t = tr @ [HttpGet url user_agent]" using scrape_body_trace [of w url tr] b by simp
  have r: "r0 = r" using scrape_body_value [of w url tr] b b0 by simp
  show ?thesis
    by (cases r) (auto simp: scrape_patent_details_def document_text_def try_except_def b b0 t r
        split: exn.splits)
qed

lemma document_text_nonempty: "document_text w url \<noteq> []"
proof -
  obtain r t where b: "scrape_body w url [] = (r, t)" by (cases "scrape_body w url []")
  have "r \<noteq> Inr []" using scrape_body_nonempty [of w url "[]"] b by simp
  then show ?thesis
    by (cases r) (auto simp: scrape_patent_details_def document_text_def try_except_def b
        split: exn.splits)
qed

lemma document_text_fetch_error:
  "fetch w url user_agent = Inl (Exception e) \<Longrightarrow>
     document_text w url = ''Error scraping patent details: '' @ e"
  by (simp add: document_text_def scrape_patent_details_def scrape_body_def try_except_def)

lemma document_text_parse_error:
  "fetch w url user_agent = Inr soup \<Longrightarrow> extract_abstract soup = Inl (Exception e) \<Longrightarrow>
     document_text w url = ''Error scraping patent details: '' @ e"
  by (simp add: document_text_def scrape_patent_details_def scrape_body_def try_except_def)

lemma document_text_sections:
  "fetch w url user_agent = Inr soup \<Longrightarrow> extract_abstract soup = Inr abstract \<Longrightarrow>
     document_text w url =
       (if strip (combine_sections abstract (extract_description soup) (extract_claims soup)) \<noteq> []
        then combine_sections abstract (extract_description soup) (extract_claims soup)
        else no_description)"
  by (simp add: document_text_def scrape_patent_details_def scrape_body_def try_except_def Let_def)

lemma fetched_urls_append: "fetched_urls (tr @ tr') = fetched_urls tr @ fetched_urls tr'"
  by (induction tr rule: fetched_urls.induct) auto

lemma search_loop_result:
  "fst (search_loop w pr features T mn n i ps best tr) =
     Inr (best @ map (analysed w pr features T)
                   (filter (\<lambda>p. patent_link p \<noteq> [] \<and>
                                mn \<le> int (length (snd (snd (analysed w pr features T p))))) ps))"
  by (induction ps arbitrary: i best tr)
     (auto simp: Let_def scrape_patent_details_eq analysed_def)

lemma search_loop_fetched:
  "fetched_urls (snd (search_loop w pr features T mn n i ps best tr)) =
     fetched_urls tr @ map patent_link (filter (\<lambda>p. patent_link p \<noteq> []) ps)"
  by (induction ps arbitrary: i best tr)
     (auto simp: Let_def scrape_patent_details_eq fetched_urls_append)

lemma search_result:
  assumes "fst (get_patent_results w ni key tr) = Inr patents"
  shows "fst (search_best_matching_patents w pr ni features key T mn M tr) =
     Inr (map (analysed w pr features T)
            (filter (\<lambda>p. patent_link p \<noteq> [] \<and>
                         mn \<le> int (length (snd (snd (analysed w pr features T p)))))
               (slice_to patents M)))"
proof -
  obtain tr1 where g: "get_patent_results w ni key tr = (Inr patents, tr1)"
    using assms by (cases "get_patent_results w ni key tr") auto
  obtain r tr2 where l: "search_loop w pr features T mn (min (int (length patents)) M) 0
      (slice_to patents M) [] (tr1 @ [StProgressNew, StEmptyNew]) = (r, tr2)"
    by (cases "search_loop w pr features T mn (min (int (length patents)) M) 0
      (slice_to patents M) [] (tr1 @ [StProgressNew, StEmptyNew])")
  have "r = Inr (map (analysed w pr features T)
            (filter (\<lambda>p. patent_link p \<noteq> [] \<and>
                         mn \<le> int (length (snd (snd (analysed w pr features T p)))))
               (slice_to patents M)))"
    using search_loop_result [of w pr features T mn "min (int (length patents)) M" 0
        "slice_to patents M" "[]" "tr1 @ [StProgressNew, StEmptyNew]"] l by simp
  then show ?thesis
    by (simp add: search_best_matching_patents_def g l)
qed

lemma search_fetched:
  assumes "fst (get_patent_results w ni key tr) = Inr patents"
  shows "fetched_urls (snd (search_best_matching_patents w pr ni features key T mn M tr)) =
     fetched_urls tr @ map patent_link (filter (\<lambda>p. patent_link p \<noteq> []) (slice_to patents M))"
proof -
  obtain tr1 where g: "get_patent_results w ni key tr = (Inr patents, tr1)"
    using assms by (cases "get_patent_results w ni key tr") auto
  have tr1: "fetched_urls tr1 = fetched_urls tr"
    using get_patent_results_returns [of w ni key tr] g
    by (auto simp: fetched_urls_append split: sum.splits exn.splits)
  obtain r tr2 where l: "search_loop w pr features T mn (min (int (length patents)) M) 0
      (slice_to patents M) [] (tr1 @ [StProgressNew, StEmptyNew]) = (r, tr2)"
    by (cases "search_loop w pr features T mn (min (int (length patents)) M) 0
      (slice_to patents M) [] (tr1 @ [StProgressNew, StEmptyNew])")
  have r: "\<exists>best. r = Inr best"
    using search_loop_result [of w pr features T mn "min (int (length patents)) M" 0
        "slice_to patents M" "[]" "tr1 @ [StProgressNew, StEmptyNew]"] l by simp
  have "fetched_urls tr2 =
      fetched_urls tr @ map patent_link (filter (\<lambda>p. patent_link p \<noteq> []) (slice_to patents M))"
    using search_loop_fetched [of w pr features T mn "min (int (length patents)) M" 0
        "slice_to patents M" "[]" "tr1 @ [StProgressNew, StEmptyNew]"] l
    by (simp add: fetched_urls_append tr1)
  then show ?thesis
    using r by (auto simp: search_best_matching_patents_def g l fetched_urls_append)
qed

lemma slice_to_nonneg: "0 \<le> M \<Longrightarrow> slice_to ps M = take (nat (min (int (length ps)) M)) ps"
  by (simp add: slice_to_def min_def)

lemma subseq_slice_to: "subseq (slice_to ps M) ps"
  by (simp add: slice_to_def prefix_imp_subseq take_is_prefix)

text \<open>
  C2. With \<open>N\<close> candidates retrieved and a bound \<open>M \<ge> 0\<close>, the pages requested during
  the search are the links of the candidates with a non-empty link among the first
  \<open>min N M\<close> retrieved ones, in that order, and the result is computed from the analyses
  of exactly those candidates. The list is cut to \<open>M\<close> before the candidates without a
  link are skipped, so at most \<open>M\<close> pages are requested and a candidate without a link
  uses up one of the \<open>M\<close> places. A candidate whose link is missing or empty is never
  requested.
\<close>

theorem search_fetches_linked_candidates_among_first_max:
  assumes "fst (get_patent_results w new_invention api_key tr) = Inr patents"
    and "0 \<le> max_patents"
  shows "fetched_urls (snd (search_best_matching_patents w partial_ratio new_invention features
            api_key similarity_threshold min_feature_matches max_patents tr))
       = fetched_urls tr @
           map patent_link
             (filter (\<lambda>p. patent_link p \<noteq> [])
                (take (nat (min (int (length patents)) max_patents)) patents))
     \<and> int (length (filter (\<lambda>p. patent_link p \<noteq> [])
                (take (nat (min (int (length patents)) max_patents)) patents))) \<le> max_patents
     \<and> fst (search_best_matching_patents w partial_ratio new_invention features
            api_key similarity_threshold min_feature_matches max_patents tr)
       = Inr (map (analysed w partial_ratio features similarity_threshold)
                (filter (\<lambda>p. patent_link p \<noteq> [] \<and>
                   min_feature_matches \<le>
                     int (length (snd (snd (analysed w partial_ratio features similarity_threshold p)))))
                   (take (nat (min (int (length patents)) max_patents)) patents)))"
proof -
  let ?first = "take (nat (min (int (length patents)) max_patents)) patents"
  have sl: "slice_to patents max_patents = ?first"
    using assms(2) by (rule slice_to_nonneg)
  have "length (filter (\<lambda>p. patent_link p \<noteq> []) ?first) \<le> length ?first"
    by (rule length_filter_le)
  also have "\<dots> \<le> nat max_patents"
    by simp
  finally have a: "int (length (filter (\<lambda>p. patent_link p \<noteq> []) ?first)) \<le> max_patents"
    using assms(2) by linarith
  have b: "fetched_urls (snd (search_best_matching_patents w partial_ratio new_invention features
            api_key similarity_threshold min_feature_matches max_patents tr))
       = fetched_urls tr @ map patent_link (filter (\<lambda>p. patent_link p \<noteq> []) ?first)"
    unfolding sl [symmetric] by (rule search_fetched [OF assms(1)])
  have c: "fst (search_best_matching_patents w partial_ratio new_invention features
            api_key similarity_threshold min_feature_matches max_patents tr)
       = Inr (map (analysed w partial_ratio features similarity_threshold)
                (filter (\<lambda>p. patent_link p \<noteq> [] \<and>
                   min_feature_matches \<le>
                     int (length (snd (snd (analysed w partial_ratio features similarity_threshold p)))))
                   ?first))"
    unfolding sl [symmetric] by (rule search_result [OF assms(1)])
  from b a c show ?thesis by (intro conjI)
qed

text \<open>
  C4. The search returns a list in which every record has at least
  \<open>min_feature_matches\<close> matched features, and which is a subsequence of the retrieved
  candidates, each with its analysis: the records keep the order of retrieval.
\<close>

theorem results_meet_minimum_and_keep_retrieval_order:
  "\<exists>best. fst (search_best_matching_patents w partial_ratio new_invention features api_key
              similarity_threshold min_feature_matches max_patents tr) = Inr best
     \<and> (\<forall>r \<in> set best. min_feature_matches \<le> int (length (snd (snd r))))
     \<and> (\<forall>patents. fst (get_patent_results w new_invention api_key tr) = Inr patents \<longrightarrow>
           subseq best (map (analysed w partial_ratio features similarity_threshold) patents))"
proof -
  obtain patents where g: "fst (get_patent_results w new_invention api_key tr) = Inr patents"
    using get_patent_results_returns [of w new_invention api_key tr] by auto
  define keep where "keep = (\<lambda>p. patent_link p \<noteq> [] \<and>
      min_feature_matches \<le> int (length (snd (snd (analysed w partial_ratio features similarity_threshold p)))))"
  define best where "best = map (analysed w partial_ratio features similarity_threshold)
      (filter keep (slice_to patents max_patents))"
  have r: "fst (search_best_matching_patents w partial_ratio new_invention features api_key
              similarity_threshold min_feature_matches max_patents tr) = Inr best"
    unfolding best_def keep_def by (rule search_result [OF g])
  have m: "\<forall>r \<in> set best. min_feature_matches \<le> int (length (snd (snd r)))"
    unfolding best_def by (simp add: keep_def)
  have "subseq (filter keep (slice_to patents max_patents)) (slice_to patents max_patents)"
    by (rule subseq_filter_left)
  then have "subseq (filter keep (slice_to patents max_patents)) patents"
    using subseq_slice_to [of patents max_patents] by (rule subseq_order.trans)
  then have s: "subseq best (map (analysed w partial_ratio features similarity_threshold) patents)"
    unfolding best_def by (rule subseq_map)
  have "\<forall>ps. fst (get_patent_results w new_invention api_key tr) = Inr ps \<longrightarrow>
           subseq best (map (analysed w partial_ratio features similarity_threshold) ps)"
    using g s by simp
  with r m show ?thesis by blast
qed

text \<open>
  C5. \<open>scrape_patent_details\<close> returns a text for every link and never raises; the text
  is never empty. A failed request or a failed extraction gives the text
  \<open>Error scraping patent details:\<close> followed by the message of the exception; when the
  three sections joined by blank lines are blank after trimming, the text is the fixed
  sentence \<open>No detailed description available.\<close>; otherwise it is the joined sections.
  Hence the search itself returns a result whatever the requests do.
\<close>

theorem scrape_patent_details_never_raises_nor_returns_empty:
  "(\<exists>text. scrape_patent_details w url tr = (Inr text, tr @ [HttpGet url user_agent]) \<and> text \<noteq> []
      \<and> (\<forall>e. fetch w url user_agent = Inl (Exception e) \<longrightarrow>
             text = ''Error scraping patent details: '' @ e)
      \<and> (\<forall>soup e. fetch w url user_agent = Inr soup \<and> extract_abstract soup = Inl (Exception e) \<longrightarrow>
             text = ''Error scraping patent details: '' @ e)
      \<and> (\<forall>soup abstract. fetch w url user_agent = Inr soup \<and> extract_abstract soup = Inr abstract \<longrightarrow>
             text =
               (if strip (combine_sections abstract (extract_description soup) (extract_claims soup)) = []
                then ''No detailed description available.''
                else combine_sections abstract (extract_description soup) (extract_claims soup))))
   \<and> (\<exists>best. fst (search_best_matching_patents w partial_ratio new_invention features api_key
                 similarity_threshold min_feature_matches max_patents tr) = Inr best)"
proof -
  obtain patents where g: "fst (get_patent_results w new_invention api_key tr) = Inr patents"
    using get_patent_results_returns [of w new_invention api_key tr] by auto
  have s: "\<exists>best. fst (search_best_matching_patents w partial_ratio new_invention features api_key
                 similarity_threshold min_feature_matches max_patents tr) = Inr best"
    using search_result [OF g] by simp
  show ?thesis
    using s scrape_patent_details_eq [of w url tr] document_text_nonempty [of w url]
      document_text_fetch_error [of w url] document_text_parse_error [of w url]
      document_text_sections [of w url]
    by (auto simp: no_description_def)
qed

text \<open>
  C6. \<open>get_patent_results\<close> never raises. When the provider call fails, the failure is
  shown to the user with \<open>st.error\<close>, carrying the message of the exception, and the
  list of candidates is empty.
\<close>

theorem get_patent_results_catches_provider_error:
  "(\<exists>patents tr'. get_patent_results w query api_key tr = (Inr patents, tr'))
   \<and> (\<forall>e. serpapi w (search_params query api_key) = Inl (Exception e) \<longrightarrow>
         get_patent_results w query api_key tr =
           (Inr [], tr @ [ApiSearch (search_params query api_key),
                          StError (''Error in API search: '' @ e)]))"
  by (auto simp: get_patent_results_def try_except_def split: sum.splits exn.splits)

text \<open>
  C7, as amended. When the form is submitted with an empty API key, an empty description,
  an empty feature text, or a feature text whose lines are all blank after trimming, the
  only effect of \<open>process_search\<close> is one error message: no search is sent and no page
  is requested. The key and the description are tested as they are, by \<open>not api_key\<close> and
  \<open>not new_invention\<close>, so only the empty string counts as missing for them; a key or a
  description made of blanks passes the tests and the search is sent, as the sample run
  after the next theorem shows.
\<close>

theorem missing_input_rejected_before_any_network_call:
  assumes "api_key = [] \<or> new_invention = [] \<or> features_text = []
           \<or> parse_features features_text = []"
  shows "\<exists>msg. process_search w partial_ratio True api_key new_invention features_text
            similarity_threshold min_feature_matches max_patents tr = (Inr (), tr @ [StError msg])
          \<and> filter is_network (tr @ [StError msg]) = filter is_network tr"
proof -
  have n: "\<And>msg. filter is_network (tr @ [StError msg]) = filter is_network tr"
    by simp
  have "\<exists>msg. process_search w partial_ratio True api_key new_invention features_text
            similarity_threshold min_feature_matches max_patents tr = (Inr (), tr @ [StError msg])"
  proof (cases "api_key = []")
    case True
    then show ?thesis unfolding process_search_def by (simp only: if_True simp_thms) blast
  next
    case k: False
    show ?thesis
    proof (cases "new_invention = []")
      case True
      with k show ?thesis unfolding process_search_def by (simp only: if_True if_False simp_thms) blast
    next
      case i: False
      show ?thesis
      proof (cases "features_text = []")
        case True
        with k i show ?thesis unfolding process_search_def by (simp only: if_True if_False simp_thms) blast
      next
        case f: False
        with assms k i have p: "parse_features features_text = []" by blast
        with k i f show ?thesis unfolding process_search_def Let_def
          by (simp only: if_True if_False simp_thms) blast
      qed
    qed
  qed
  with n show ?thesis by blast
qed

lemma demo_retrieved:
  "fst (get_patent_results demo_world ''widget drive'' ''key'' []) = Inr demo_patents"
  by (simp add: get_patent_results_def try_except_def demo_world_def)

lemma demo_first_three_links:
  "map patent_link
     (filter (\<lambda>p. patent_link p \<noteq> []) (take (nat (min (int (length demo_patents)) 3)) demo_patents))
   = [''http://a'', ''http://b'']"
  by (simp add: demo_patents_def dict_get_def)

lemma demo_search:
  "fst (search_best_matching_patents demo_world containment_ratio ''widget drive'' demo_features
          ''key'' 40 2 3 []) = Inr [(''Widget drive'', ''http://a'', demo_matches)]"
  by code_simp

theorem search_fetches_linked_candidates_among_first_max_witness:
  "fst (get_patent_results demo_world ''widget drive'' ''key'' []) = Inr demo_patents
   \<and> length demo_patents = 4 \<and> (0::int) \<le> 3
   \<and> fetched_urls (snd (search_best_matching_patents demo_world containment_ratio
         ''widget drive'' demo_features ''key'' 40 2 3 [])) = [''http://a'', ''http://b'']"
proof -
  have n: "length demo_patents = 4" by (simp add: demo_patents_def)
  have m: "(0::int) \<le> 3" by simp
  have "fetched_urls (snd (search_best_matching_patents demo_world containment_ratio
         ''widget drive'' demo_features ''key'' 40 2 3 [])) =
        fetched_urls [] @ map patent_link
          (filter (\<lambda>p. patent_link p \<noteq> [])
             (take (nat (min (int (length demo_patents)) 3)) demo_patents))"
    using search_fetches_linked_candidates_among_first_max [OF demo_retrieved m] by blast
  then have "fetched_urls (snd (search_best_matching_patents demo_world containment_ratio
         ''widget drive'' demo_features ''key'' 40 2 3 [])) = [''http://a'', ''http://b'']"
    by (simp only: demo_first_three_links fetched_urls.simps append_Nil)
  with demo_retrieved n m show ?thesis by (intro conjI)
qed

theorem results_meet_minimum_and_keep_retrieval_order_witness:
  "fst (search_best_matching_patents demo_world containment_ratio ''widget drive'' demo_features
          ''key'' 40 2 3 []) = Inr [(''Widget drive'', ''http://a'', demo_matches)]
   \<and> (2::int) \<le> int (length demo_matches)
   \<and> subseq [(''Widget drive'', ''http://a'', demo_matches)]
        (map (analysed demo_world containment_ratio demo_features 40) demo_patents)"
proof -
  obtain best where
    b: "fst (search_best_matching_patents demo_world containment_ratio ''widget drive''
          demo_features ''key'' 40 2 3 []) = Inr best"
    and m: "\<forall>r \<in> set best. 2 \<le> int (length (snd (snd r)))"
    and s: "\<forall>patents. fst (get_patent_results demo_world ''widget drive'' ''key'' []) = Inr patents \<longrightarrow>
           subseq best (map (analysed demo_world containment_ratio demo_features 40) patents)"
    using results_meet_minimum_and_keep_retrieval_order
      [of demo_world containment_ratio "''widget drive''" demo_features "''key''" 40 2 3 "[]"]
    by blast
  have e: "best = [(''Widget drive'', ''http://a'', demo_matches)]"
    using b demo_search by simp
  have "2 \<le> int (length demo_matches)"
    using m unfolding e by simp
  moreover have "subseq [(''Widget drive'', ''http://a'', demo_matches)]
        (map (analysed demo_world containment_ratio demo_features 40) demo_patents)"
    using s demo_retrieved unfolding e by blast
  ultimately show ?thesis using demo_search by (intro conjI)
qed

lemma demo_fetch_b: "fetch demo_world ''http://b'' user_agent = Inl (Exception ''timed out'')"
  by (simp add: demo_world_def)

lemma demo_fetch_c: "fetch demo_world ''http://c'' user_agent = Inr empty_soup"
  by (simp add: demo_world_def)

lemma empty_soup_sections:
  "extract_abstract empty_soup = Inr []"
  "strip (combine_sections [] (extract_description empty_soup) (extract_claims empty_soup)) = []"
  by code_simp+

theorem scrape_patent_details_never_raises_nor_returns_empty_witness:
  "scrape_patent_details demo_world ''http://b'' [] =
     (Inr ''Error scraping patent details: timed out'', [HttpGet ''http://b'' user_agent])
   \<and> scrape_patent_details demo_world ''http://c'' [] =
     (Inr ''No detailed description available.'', [HttpGet ''http://c'' user_agent])"
proof -
  obtain tb where
    b: "scrape_patent_details demo_world ''http://b'' [] = (Inr tb, [] @ [HttpGet ''http://b'' user_agent])"
    and be: "\<forall>e. fetch demo_world ''http://b'' user_agent = Inl (Exception e) \<longrightarrow>
               tb = ''Error scraping patent details: '' @ e"
    using scrape_patent_details_never_raises_nor_returns_empty
      [of demo_world "''http://b''" "[]" containment_ratio "''widget drive''" demo_features "''key''" 40 2 3]
    by blast
  obtain tc where
    c: "scrape_patent_details demo_world ''http://c'' [] = (Inr tc, [] @ [HttpGet ''http://c'' user_agent])"
    and ce: "\<forall>soup abstract. fetch demo_world ''http://c'' user_agent = Inr soup \<and>
               extract_abstract soup = Inr abstract \<longrightarrow>
               tc = (if strip (combine_sections abstract (extract_description soup) (extract_claims soup)) = []
                     then ''No detailed description available.''
                     else combine_sections abstract (extract_description soup) (extract_claims soup))"
    using scrape_patent_details_never_raises_nor_returns_empty
      [of demo_world "''http://c''" "[]" containment_ratio "''widget drive''" demo_features "''key''" 40 2 3]
    by blast
  have "tb = ''Error scraping patent details: '' @ ''timed out''"
    using be demo_fetch_b by blast
  then have tb: "tb = ''Error scraping patent details: timed out''" by simp
  have "tc = (if strip (combine_sections [] (extract_description empty_soup) (extract_claims empty_soup)) = []
                     then ''No detailed description available.''
                     else combine_sections [] (extract_description empty_soup) (extract_claims empty_soup))"
    using ce demo_fetch_c empty_soup_sections(1) by blast
  then have tc: "tc = ''No detailed description available.''"
    by (simp only: empty_soup_sections(2) if_True simp_thms)
  show ?thesis using b c unfolding tb tc by simp
qed

lemma failing_serpapi:
  "serpapi failing_world (search_params ''widget drive'' ''bad key'') = Inl (Exception ''Invalid API key'')"
  by (simp add: failing_world_def)

theorem get_patent_results_catches_provider_error_witness:
  "get_patent_results failing_world ''widget drive'' ''bad key'' [] =
     (Inr [], [ApiSearch (search_params ''widget drive'' ''bad key''),
               StError ''Error in API search: Invalid API key''])"
proof -
  have "get_patent_results failing_world ''widget drive'' ''bad key'' [] =
     (Inr [], [] @ [ApiSearch (search_params ''widget drive'' ''bad key''),
               StError (''Error in API search: '' @ ''Invalid API key'')])"
    using get_patent_results_catches_provider_error
      [of failing_world "''widget drive''" "''bad key''" "[]"] failing_serpapi
    by blast
  then show ?thesis by simp
qed

lemma parse_blank_lines: "parse_features blank_lines = []"
  by code_simp

theorem missing_input_rejected_before_any_network_call_witness:
  "parse_features blank_lines = []
   \<and> (\<exists>msg. process_search demo_world containment_ratio True ''key'' ''widget drive'' blank_lines
               40 3 10 [] = (Inr (), [StError msg]))
   \<and> (\<exists>msg. process_search demo_world containment_ratio True [] ''widget drive'' ''red widget''
               40 3 10 [] = (Inr (), [StError msg]))"
proof -
  have a: "''key'' = [] \<or> ''widget drive'' = [] \<or> blank_lines = [] \<or> parse_features blank_lines = []"
    using parse_blank_lines by blast
  have b: "([]::string) = [] \<or> ''widget drive'' = [] \<or> ''red widget'' = []
           \<or> parse_features ''red widget'' = []"
    by simp
  show ?thesis
    using parse_blank_lines
      missing_input_rejected_before_any_network_call [OF a, of demo_world containment_ratio 40 3 10 "[]"]
      missing_input_rejected_before_any_network_call [OF b, of demo_world containment_ratio 40 3 10 "[]"]
    by (simp only: append_Nil) blast
qed

theorem blank_key_or_description_is_searched:
  "strip '' '' = []
   \<and> filter is_network (snd (process_search demo_world containment_ratio True '' '' ''widget drive''
        ''red widget'' 40 3 10 []))
     = [ApiSearch (search_params ''widget drive'' '' ''), HttpGet ''http://a'' user_agent,
        HttpGet ''http://b'' user_agent, HttpGet ''http://c'' user_agent]
   \<and> filter is_network (snd (process_search demo_world containment_ratio True ''key'' '' ''
        ''red widget'' 40 3 10 []))
     = [ApiSearch (search_params '' '' ''key''), HttpGet ''http://a'' user_agent,
        HttpGet ''http://b'' user_agent, HttpGet ''http://c'' user_agent]"
  by code_simp

text \<open>
  C9, as amended. Matching compares lower-cased texts and the result keeps the spelling
  it was given. If a feature and a document text are replaced by texts with the same
  lower-casing, the score stored for the feature is the same, and so is whether the
  feature is retained, because both sides go through \<open>lower\<close> before they are scored.
  By \<open>case_variant_lower\<close> this covers every pair of case variants in which no sharp s
  occurs. The keys of the mapping are the submitted features themselves, and every
  justification sentence is a piece of the document text as given (or the placeholder),
  not of its lower-cased form. Case variants that only a case fold brings together are
  not scored alike, as the sample with the sharp s below shows.
\<close>

theorem same_lower_casing_scores_alike_and_keeps_spelling:
  assumes "lower feature' = lower feature" and "lower patent_text' = lower patent_text"
    and "feature \<in> set features" and "feature' \<in> set features'"
  shows "map_option score
           (map_of (compare_features partial_ratio features' patent_text' similarity_threshold) feature')
         = map_option score
           (map_of (compare_features partial_ratio features patent_text similarity_threshold) feature)
     \<and> fst ` set (compare_features partial_ratio features patent_text similarity_threshold)
         \<subseteq> set features
     \<and> (\<forall>e s. (feature, e) \<in> set (compare_features partial_ratio features patent_text similarity_threshold)
                 \<and> s \<in> set (justification e) \<longrightarrow>
           s \<in> set (split_dot_space patent_text) \<or> s = no_sentence_found)"
proof -
  note f = assms(1) and t = assms(2)
  have a: "map_option score
           (map_of (compare_features partial_ratio features' patent_text' similarity_threshold) feature')
         = map_option score
           (map_of (compare_features partial_ratio features patent_text similarity_threshold) feature)"
    using assms(3,4) by (simp add: map_of_compare_features feature_entry_def f t)
  have b: "fst ` set (compare_features partial_ratio features patent_text similarity_threshold)
         \<subseteq> set features"
    by (auto simp: keys_compare_features)
  have c: "\<forall>e s. (feature, e) \<in> set (compare_features partial_ratio features patent_text similarity_threshold)
                 \<and> s \<in> set (justification e) \<longrightarrow>
           s \<in> set (split_dot_space patent_text) \<or> s = no_sentence_found"
    by (auto simp: entry_compare_features feature_entry_def relevant_sentences_def
        split: if_splits dest: in_set_takeD)
  from a b c show ?thesis by (intro conjI)
qed


lemma demo_variants:
  "lower ''Red Widget'' = lower ''red widget''"
  "lower ''a red WIDGET turns. Done'' = lower ''A Red Widget turns. Done''"
  by code_simp+

lemma demo_variant_score:
  "map_option score (map_of (compare_features containment_ratio [''red widget'', ''gear'']
       ''A Red Widget turns. Done'' 40) ''red widget'') = Some 100"
  by code_simp

theorem same_lower_casing_scores_alike_and_keeps_spelling_witness:
  "lower ''Red Widget'' = lower ''red widget''
   \<and> lower ''a red WIDGET turns. Done'' = lower ''A Red Widget turns. Done''
   \<and> map_option score (map_of (compare_features containment_ratio [''Red Widget'']
         ''a red WIDGET turns. Done'' 40) ''Red Widget'') = Some 100
   \<and> map_option score (map_of (compare_features containment_ratio [''red widget'', ''gear'']
         ''A Red Widget turns. Done'' 40) ''red widget'') = Some 100"
proof -
  have a: "''red widget'' \<in> set [''red widget'', ''gear'']" by simp
  have b: "''Red Widget'' \<in> set [''Red Widget'']" by simp
  have "map_option score (map_of (compare_features containment_ratio [''Red Widget'']
         ''a red WIDGET turns. Done'' 40) ''Red Widget'')
      = map_option score (map_of (compare_features containment_ratio [''red widget'', ''gear'']
         ''A Red Widget turns. Done'' 40) ''red widget'')"
    using same_lower_casing_scores_alike_and_keeps_spelling [OF demo_variants a b] by blast
  with demo_variants demo_variant_score show ?thesis by simp
qed

text \<open>
  The claim as the spec words it fails. The word written with a sharp s and \<open>STRASSE\<close>
  are case variants of each other, yet \<open>lower\<close> leaves the sharp s alone, so the two are
  handed to the scorer as different texts; with the sample scorer and the document text
  \<open>strasse\<close> one is retained with score 100 and the other is not retained at all.
\<close>

theorem sharp_s_variants_score_differently:
  "case_variant strasse_sharp_s ''STRASSE''
   \<and> lower strasse_sharp_s \<noteq> lower ''STRASSE''
   \<and> map_option score (map_of (compare_features containment_ratio [''STRASSE'']
         ''strasse'' 40) ''STRASSE'') = Some 100
   \<and> map_option score (map_of (compare_features containment_ratio [strasse_sharp_s]
         ''strasse'' 40) strasse_sharp_s) = None"
  by code_simp



lemma demo_search_variants:
  "map (\<lambda>(title, link, matches). (title, map fst matches))
     (case fst (search_best_matching_patents demo_world containment_ratio ''widget drive''
          [''Red widget'', ''red widget''] ''key'' 40 2 3 []) of Inr best \<Rightarrow> best | Inl e \<Rightarrow> [])
   = [(''Widget drive'', [''Red widget'', ''red widget''])]"
  by code_simp


section \<open>The export parses back\<close>

lemma hex_val_hex_digit: "n < 16 \<Longrightarrow> hex_val (hex_digit n) = Some n"
  by (auto simp: hex_val_def hex_digit_def)

lemma hex_val_zero: "hex_val CHR ''0'' = Some 0"
  by (simp add: hex_val_def)

lemma char_of_div_mod: "char_of (16 * (of_char c div 16) + of_char c mod (16::nat)) = c"
  by simp

lemma scan_string_plain:
  "c \<noteq> CHR 0x22 \<Longrightarrow> c \<noteq> CHR 0x5C \<Longrightarrow> (32::nat) \<le> of_char c \<Longrightarrow>
     scan_string (c # s) = cons_result c (scan_string s)"
  by simp

lemma scan_string_simple_escape:
  "e \<noteq> CHR ''u'' \<Longrightarrow> unescape e = Some d \<Longrightarrow>
     scan_string (CHR 0x5C # e # s) = cons_result d (scan_string s)"
  by simp

lemma scan_string_hex_escape:
  "scan_string (CHR 0x5C # CHR ''u'' # CHR ''0'' # CHR ''0'' #
       hex_digit (of_char c div 16) # hex_digit (of_char c mod 16) # s)
     = cons_result c (scan_string s)"
proof -
  have a: "hex_val (hex_digit (of_char c div 16)) = Some (of_char c div 16)"
    by (rule hex_val_hex_digit) (simp add: less_mult_imp_div_less)
  have b: "hex_val (hex_digit (of_char c mod 16)) = Some (of_char c mod 16)"
    by (rule hex_val_hex_digit) simp
  show ?thesis
    by (simp add: a b hex_val_zero del: hex_val_hex_digit)
qed

lemma scan_string_escape_char:
  "scan_string (escape_char c @ s) = cons_result c (scan_string s)"
proof -
  consider "c = CHR 0x22" | "c = CHR 0x5C" | "c = CHR 0x0A" | "c = CHR 0x0D" | "c = CHR 0x09"
    | "c = CHR 0x08" | "c = CHR 0x0C"
    | "c \<noteq> CHR 0x22" "c \<noteq> CHR 0x5C" "c \<noteq> CHR 0x0A" "c \<noteq> CHR 0x0D" "c \<noteq> CHR 0x09"
      "c \<noteq> CHR 0x08" "c \<noteq> CHR 0x0C" "(32::nat) \<le> of_char c \<and> of_char c \<le> (126::nat)"
    | "c \<noteq> CHR 0x22" "c \<noteq> CHR 0x5C" "c \<noteq> CHR 0x0A" "c \<noteq> CHR 0x0D" "c \<noteq> CHR 0x09"
      "c \<noteq> CHR 0x08" "c \<noteq> CHR 0x0C" "\<not> ((32::nat) \<le> of_char c \<and> of_char c \<le> (126::nat))"
    by blast
  then show ?thesis
  proof cases
    case 1 then show ?thesis by (simp add: escape_char_def unescape_def)
  next
    case 2 then show ?thesis by (simp add: escape_char_def unescape_def)
  next
    case 3 then show ?thesis by (simp add: escape_char_def unescape_def)
  next
    case 4 then show ?thesis by (simp add: escape_char_def unescape_def)
  next
    case 5 then show ?thesis by (simp add: escape_char_def unescape_def)
  next
    case 6 then show ?thesis by (simp add: escape_char_def unescape_def)
  next
    case 7 then show ?thesis by (simp add: escape_char_def unescape_def)
  next
    case 8 then show ?thesis by (simp add: escape_char_def)
  next
    case 9
    then have "escape_char c = [CHR 0x5C, CHR ''u'', CHR ''0'', CHR ''0'',
            hex_digit (of_char c div 16), hex_digit (of_char c mod 16)]"
      by (simp add: escape_char_def)
    then show ?thesis
      using scan_string_hex_escape [of c s] by simp
  qed
qed

lemma scan_string_dumps: "scan_string (concat (map escape_char s) @ CHR 0x22 # rest) = Some (s, rest)"
proof (induction s)
  case Nil
  show ?case by simp
next
  case (Cons c s)
  have "scan_string (concat (map escape_char (c # s)) @ CHR 0x22 # rest)
      = scan_string (escape_char c @ (concat (map escape_char s) @ CHR 0x22 # rest))"
    by simp
  also have "\<dots> = cons_result c (scan_string (concat (map escape_char s) @ CHR 0x22 # rest))"
    by (rule scan_string_escape_char)
  also have "\<dots> = Some (c # s, rest)"
    by (simp add: Cons.IH cons_result_def)
  finally show ?case .
qed

lemma digit_char: "d < 10 \<Longrightarrow> is_digit (char_of (48 + d)) \<and> of_char (char_of (48 + d)) - 48 = (d::nat)"
  by (simp add: is_digit_def)

lemma char_of_48: "char_of (48::nat) = CHR ''0''"
  by code_simp

lemma digit_char_zero: "d < 10 \<Longrightarrow> char_of (48 + d) = CHR ''0'' \<longleftrightarrow> d = (0::nat)"
proof -
  assume d: "d < 10"
  have "CHR ''0'' = char_of (48::nat)" by (simp only: char_of_48)
  then show ?thesis using d by (simp only: char_of_quasi_inj) simp
qed

lemma dumps_nat_digits: "\<forall>c \<in> set (dumps_nat n). is_digit c"
proof (induction n rule: dumps_nat.induct)
  case (1 n)
  show ?case
  proof (cases "n < 10")
    case True
    then show ?thesis by (simp add: dumps_nat.simps [of n] digit_char)
  next
    case False
    then show ?thesis using 1 by (simp add: dumps_nat.simps [of n] digit_char)
  qed
qed

lemma dumps_nat_nonempty: "dumps_nat n \<noteq> []"
  by (simp add: dumps_nat.simps [of n])

lemma hd_dumps_nat: "hd (dumps_nat n) = CHR ''0'' \<longleftrightarrow> n = 0"
proof (induction n rule: dumps_nat.induct)
  case (1 n)
  show ?case
  proof (cases "n < 10")
    case True
    then show ?thesis by (simp add: dumps_nat.simps [of n] digit_char_zero)
  next
    case False
    then have "hd (dumps_nat n) = hd (dumps_nat (n div 10))"
      by (simp add: dumps_nat.simps [of n] dumps_nat_nonempty)
    then show ?thesis using 1 False by simp
  qed
qed

lemma digits_value_snoc: "digits_value (ds @ [c]) = 10 * digits_value ds + (of_char c - 48)"
  by (simp add: digits_value_def)

lemma digits_value_dumps_nat: "digits_value (dumps_nat n) = n"
proof (induction n rule: dumps_nat.induct)
  case (1 n)
  show ?case
  proof (cases "n < 10")
    case True
    then show ?thesis by (simp add: dumps_nat.simps [of n] digits_value_def digit_char)
  next
    case False
    then show ?thesis using 1
      by (simp add: dumps_nat.simps [of n] digits_value_snoc digit_char)
  qed
qed

lemma ends_value_not_digit: "ends_value rest \<Longrightarrow> rest \<noteq> [] \<Longrightarrow> \<not> is_digit (hd rest)"
  by (auto simp: ends_value_def is_digit_def)

lemma ends_value_not_float: "ends_value rest \<Longrightarrow> \<not> float_follows rest"
  by (cases rest) (auto simp: ends_value_def float_follows_def)

lemma takeWhile_digits:
  assumes "ends_value rest"
  shows "takeWhile is_digit (dumps_nat n @ rest) = dumps_nat n"
    and "dropWhile is_digit (dumps_nat n @ rest) = rest"
proof -
  have r: "takeWhile is_digit rest = []" "dropWhile is_digit rest = rest"
    using ends_value_not_digit [OF assms] by (cases rest; simp)+
  show "takeWhile is_digit (dumps_nat n @ rest) = dumps_nat n"
    using dumps_nat_digits [of n] r by (simp add: takeWhile_append2)
  show "dropWhile is_digit (dumps_nat n @ rest) = rest"
    using dumps_nat_digits [of n] r by (simp add: dropWhile_append2)
qed

lemma scan_nat_dumps_nat:
  assumes "ends_value rest"
  shows "scan_nat (dumps_nat n @ rest) = Some (n, rest)"
proof (cases "dumps_nat n")
  case Nil
  then show ?thesis using dumps_nat_nonempty by blast
next
  case (Cons c cs)
  have c: "c = hd (dumps_nat n)" using Cons by simp
  have d: "is_digit c" using dumps_nat_digits [of n] Cons by simp
  show ?thesis
  proof (cases "n = 0")
    case True
    then have "dumps_nat n = ''0''" by (simp add: dumps_nat.simps [of 0] char_of_48)
    then show ?thesis using True by (simp add: scan_nat_def)
  next
    case False
    then have nz: "c \<noteq> CHR ''0''" using hd_dumps_nat [of n] c by simp
    have "scan_nat (dumps_nat n @ rest) =
        Some (digits_value (takeWhile is_digit (dumps_nat n @ rest)),
              dropWhile is_digit (dumps_nat n @ rest))"
      using Cons nz d by (simp add: scan_nat_def)
    then show ?thesis
      by (simp only: takeWhile_digits [OF assms] digits_value_dumps_nat)
  qed
qed

lemma hd_dumps_nat_not_minus: "hd (dumps_nat n) \<noteq> CHR ''-''"
proof -
  have "is_digit (hd (dumps_nat n))"
    using dumps_nat_digits [of n] dumps_nat_nonempty [of n] by (cases "dumps_nat n") auto
  then show ?thesis by (auto simp: is_digit_def)
qed

lemma scan_int_dumps_int:
  assumes "ends_value rest"
  shows "scan_int (dumps_int k @ rest) = Some (k, rest)"
proof (cases "k < 0")
  case True
  then show ?thesis
    by (simp add: scan_int_def dumps_int_def scan_nat_dumps_nat [OF assms]
        ends_value_not_float [OF assms])
next
  case False
  obtain c cs where cs: "dumps_nat (nat k) = c # cs"
    using dumps_nat_nonempty [of "nat k"] by (cases "dumps_nat (nat k)") auto
  have "c \<noteq> CHR ''-''" using hd_dumps_nat_not_minus [of "nat k"] cs by simp
  moreover have "scan_nat (c # cs @ rest) = Some (nat k, rest)"
    using scan_nat_dumps_nat [OF assms, of "nat k"] cs by simp
  ultimately show ?thesis using False
    by (simp add: scan_int_def dumps_int_def cs ends_value_not_float [OF assms])
qed

lemma skip_ws_blanks: "skip_ws (replicate n CHR '' '' @ s) = skip_ws s"
  by (induction n) (simp_all add: skip_ws_def is_ws_def)

lemma skip_ws_newline_indent: "skip_ws (newline_indent l @ s) = skip_ws s"
proof -
  have "skip_ws (newline_indent l @ s) = skip_ws (replicate (2 * l) CHR '' '' @ s)"
    by (simp add: newline_indent_def skip_ws_def is_ws_def)
  then show ?thesis by (simp only: skip_ws_blanks)
qed

lemma skip_ws_Cons: "\<not> is_ws c \<Longrightarrow> skip_ws (c # s) = c # s"
  by (simp add: skip_ws_def)

lemma ends_value_newline_indent: "ends_value (newline_indent l @ s)"
  by (simp add: ends_value_def newline_indent_def)

lemma ends_value_comma: "ends_value (CHR '','' # s)"
  by (simp add: ends_value_def)

lemma ends_value_Nil: "ends_value []"
  by (simp add: ends_value_def)

lemma is_digit_starts_value: "is_digit c \<Longrightarrow> starts_value c"
  by (auto simp: is_digit_def starts_value_def is_ws_def)

lemma dumps_int_first: "\<exists>c cs. dumps_int k = c # cs \<and> (c = CHR ''-'' \<or> is_digit c)"
proof -
  obtain c cs where cs: "dumps_nat (nat \<bar>k\<bar>) = c # cs"
    using dumps_nat_nonempty [of "nat \<bar>k\<bar>"] by (cases "dumps_nat (nat \<bar>k\<bar>)") auto
  then have "is_digit c" using dumps_nat_digits [of "nat \<bar>k\<bar>"] by simp
  then show ?thesis using cs by (cases "k < 0") (auto simp: dumps_int_def abs_if)
qed

lemma dumps_indent_first: "\<exists>c cs. dumps_indent l v = c # cs \<and> starts_value c"
proof (cases v)
  case (JInt k)
  obtain c cs where "dumps_int k = c # cs" "c = CHR ''-'' \<or> is_digit c"
    using dumps_int_first by blast
  then show ?thesis using JInt is_digit_starts_value [of c]
    by (auto simp: starts_value_def is_ws_def)
qed (auto simp: starts_value_def is_ws_def dumps_str_def)

lemma skip_ws_dumps_indent: "skip_ws (dumps_indent l v @ s) = dumps_indent l v @ s"
proof -
  obtain c cs where "dumps_indent l v = c # cs" "starts_value c"
    using dumps_indent_first by blast
  then show ?thesis by (simp add: skip_ws_Cons starts_value_def)
qed

lemma parse_value_JInt:
  assumes "ends_value rest"
  shows "parse_value (Suc n) (dumps_int k @ rest) = Some (JInt k, rest)"
proof -
  obtain c cs where cs: "dumps_int k = c # cs" and c: "c = CHR ''-'' \<or> is_digit c"
    using dumps_int_first by blast
  have s: "scan_int (c # cs @ rest) = Some (k, rest)"
    using scan_int_dumps_int [OF assms, of k] cs by simp
  have "c \<noteq> CHR 0x22" "c \<noteq> CHR ''{''" "c \<noteq> CHR ''[''" "c \<noteq> CHR ''n''" "c \<noteq> CHR ''t''"
    "c \<noteq> CHR ''f''"
    using c by (auto simp: is_digit_def)
  then show ?thesis
    by (simp add: cs s)
qed

lemma parse_value_JStr:
  "parse_value (Suc n) (dumps_str s @ rest) = Some (JStr s, rest)"
  by (simp add: dumps_str_def scan_string_dumps)

lemma parse_value_atoms:
  "parse_value (Suc n) (''null'' @ rest) = Some (JNull, rest)"
  "parse_value (Suc n) (''true'' @ rest) = Some (JBool True, rest)"
  "parse_value (Suc n) (''false'' @ rest) = Some (JBool False, rest)"
  "parse_value (Suc n) (''[]'' @ rest) = Some (JArr [], rest)"
  "parse_value (Suc n) (''{}'' @ rest) = Some (JObj [], rest)"
  by (simp_all add: skip_ws_Cons is_ws_def)

lemma parse_items_join:
  assumes "\<And>x n l rest. x \<in> set xs \<Longrightarrow> size x < n \<Longrightarrow> ends_value rest \<Longrightarrow>
             parse_value n (dumps_indent l x @ rest) = Some (x, rest)"
    and "xs \<noteq> []" and "size_list size xs < n"
  shows "parse_items n
           (join (CHR '','' # newline_indent m) (map (dumps_indent m) xs)
              @ newline_indent l @ CHR '']'' # rest) = Some (xs, rest)"
  using assms(2,1,3)
proof (induction xs arbitrary: n rule: list_nonempty_induct)
  case (single x)
  obtain n' where n: "n = Suc n'" and x: "size x < n'"
    using single(2) by (cases n) auto
  have v: "parse_value n' (dumps_indent m x @ newline_indent l @ CHR '']'' # rest)
      = Some (x, newline_indent l @ CHR '']'' # rest)"
    using single(1) [of x n' "newline_indent l @ CHR '']'' # rest" m] x
    by (simp add: ends_value_newline_indent)
  show ?case
    by (simp add: n v skip_ws_newline_indent skip_ws_Cons is_ws_def)
next
  case (cons x xs)
  obtain n' where n: "n = Suc n'" and x: "size x < n'" and xs: "size_list size xs < n'"
    using cons(4) by (cases n) auto
  obtain y ys where ys: "xs = y # ys"
    using cons(1) by (cases xs) auto
  let ?tail = "join (CHR '','' # newline_indent m) (map (dumps_indent m) xs)
              @ newline_indent l @ CHR '']'' # rest"
  have j: "join (CHR '','' # newline_indent m) (map (dumps_indent m) (x # xs))
              @ newline_indent l @ CHR '']'' # rest
        = dumps_indent m x @ CHR '','' # newline_indent m @ ?tail"
    by (simp add: ys)
  have v: "parse_value n' (dumps_indent m x @ CHR '','' # newline_indent m @ ?tail)
      = Some (x, CHR '','' # newline_indent m @ ?tail)"
    using cons(3) [of x n' "CHR '','' # newline_indent m @ ?tail" m] x
    by (simp add: ends_value_comma)
  have t: "skip_ws ?tail = ?tail"
    using skip_ws_dumps_indent [of m y] by (cases ys) (simp_all add: ys)
  have r: "parse_items n' ?tail = Some (xs, rest)"
    using cons(2) [of n'] cons(3) xs by simp
  show ?case
    unfolding j n
    by (simp add: v skip_ws_Cons is_ws_def skip_ws_newline_indent t r cons_result_def
        del: append_assoc)
qed

lemma parse_pair_head:
  assumes "parse_value n (dumps_indent m v @ tail) = Some (v, tail)"
  shows "parse_pairs (Suc n) (dumps_pair m (k, v) @ tail) =
           (case skip_ws tail of
              [] \<Rightarrow> None
            | e # es \<Rightarrow>
                if e = CHR ''}'' then Some ([(k, v)], es)
                else if e = CHR '','' then cons_result (k, v) (parse_pairs n (skip_ws es))
                else None)"
proof -
  have s: "scan_string (concat (map escape_char k) @ CHR 0x22 # CHR '':'' # CHR '' '' # dumps_indent m v @ tail)
      = Some (k, CHR '':'' # CHR '' '' # dumps_indent m v @ tail)"
    by (rule scan_string_dumps)
  have w: "skip_ws (CHR '' '' # dumps_indent m v @ tail) = dumps_indent m v @ tail"
    using skip_ws_dumps_indent [of m v tail] by (simp add: skip_ws_def is_ws_def)
  show ?thesis
    by (simp add: dumps_str_def s skip_ws_Cons is_ws_def w assms del: skip_ws_dumps_indent)
qed

lemma parse_pair_close:
  assumes "parse_value n (dumps_indent m v @ newline_indent l @ CHR ''}'' # rest)
             = Some (v, newline_indent l @ CHR ''}'' # rest)"
  shows "parse_pairs (Suc n) (dumps_pair m (k, v) @ newline_indent l @ CHR ''}'' # rest)
           = Some ([(k, v)], rest)"
  by (simp only: parse_pair_head [OF assms] skip_ws_newline_indent)
     (simp add: skip_ws_Cons is_ws_def)

lemma parse_pair_comma:
  assumes "parse_value n (dumps_indent m v @ CHR '','' # newline_indent m' @ tail)
             = Some (v, CHR '','' # newline_indent m' @ tail)"
  shows "parse_pairs (Suc n) (dumps_pair m (k, v) @ CHR '','' # newline_indent m' @ tail)
           = cons_result (k, v) (parse_pairs n (skip_ws tail))"
  by (simp only: parse_pair_head [OF assms])
     (simp add: skip_ws_Cons is_ws_def skip_ws_newline_indent)

lemma skip_ws_dumps_pair: "skip_ws (dumps_pair m kv @ s) = dumps_pair m kv @ s"
  by (cases kv) (simp add: dumps_str_def skip_ws_Cons is_ws_def)

lemma parse_pairs_join:
  assumes "\<And>k v n l rest. (k, v) \<in> set kvs \<Longrightarrow> size v < n \<Longrightarrow> ends_value rest \<Longrightarrow>
             parse_value n (dumps_indent l v @ rest) = Some (v, rest)"
    and "kvs \<noteq> []" and "size_list (size_prod (\<lambda>k. 0) size) kvs < n"
  shows "parse_pairs n
           (join (CHR '','' # newline_indent m) (map (dumps_pair m) kvs)
              @ newline_indent l @ CHR ''}'' # rest) = Some (kvs, rest)"
  using assms(2,1,3)
proof (induction kvs arbitrary: n rule: list_nonempty_induct)
  case (single kv)
  obtain k v where kv: "kv = (k, v)" by (cases kv)
  obtain n' where n: "n = Suc n'" and x: "size v < n'"
    using single(2) by (cases n) (auto simp: kv)
  have v: "parse_value n' (dumps_indent m v @ newline_indent l @ CHR ''}'' # rest)
      = Some (v, newline_indent l @ CHR ''}'' # rest)"
    using single(1) [of k v n' "newline_indent l @ CHR ''}'' # rest" m] x
    by (simp add: ends_value_newline_indent kv)
  have "parse_pairs (Suc n') (dumps_pair m (k, v) @ newline_indent l @ CHR ''}'' # rest)
      = Some ([(k, v)], rest)"
    using v by (rule parse_pair_close)
  then show ?case
    by (simp add: n kv)
next
  case (cons kv kvs)
  obtain k v where kv: "kv = (k, v)" by (cases kv)
  obtain n' where n: "n = Suc n'" and x: "size v < n'"
    and xs: "size_list (size_prod (\<lambda>k. 0) size) kvs < n'"
    using cons(4) by (cases n) (auto simp: kv)
  obtain y ys where ys: "kvs = y # ys"
    using cons(1) by (cases kvs) auto
  let ?tail = "join (CHR '','' # newline_indent m) (map (dumps_pair m) kvs)
              @ newline_indent l @ CHR ''}'' # rest"
  have j: "join (CHR '','' # newline_indent m) (map (dumps_pair m) ((k, v) # kvs))
              @ newline_indent l @ CHR ''}'' # rest
        = dumps_pair m (k, v) @ CHR '','' # newline_indent m @ ?tail"
    by (simp add: ys)
  have v: "parse_value n' (dumps_indent m v @ CHR '','' # newline_indent m @ ?tail)
      = Some (v, CHR '','' # newline_indent m @ ?tail)"
    using cons(3) [of k v n' "CHR '','' # newline_indent m @ ?tail" m] x
    by (simp add: ends_value_comma kv)
  have t: "skip_ws ?tail = ?tail"
    using skip_ws_dumps_pair [of m y] by (cases ys) (simp_all add: ys)
  have r: "parse_pairs n' ?tail = Some (kvs, rest)"
  proof (rule cons(2))
    fix k' v' n'' l' rest'
    assume "(k', v') \<in> set kvs" "size v' < n''" "ends_value rest'"
    then show "parse_value n'' (dumps_indent l' v' @ rest') = Some (v', rest')"
      using cons(3) [of k' v' n'' rest' l'] by simp
  next
    show "size_list (size_prod (\<lambda>k. 0) size) kvs < n'" by (rule xs)
  qed
  have "parse_pairs (Suc n') (dumps_pair m (k, v) @ CHR '','' # newline_indent m @ ?tail)
      = cons_result (k, v) (parse_pairs n' (skip_ws ?tail))"
    using v by (rule parse_pair_comma)
  also have "\<dots> = Some ((k, v) # kvs, rest)"
    by (simp only: t r cons_result_def option.case prod.case)
  finally show ?case
    unfolding j n kv .
qed

lemma update_fresh: "k \<notin> fst ` set d \<Longrightarrow> AList.update k v d = d @ [(k, v)]"
  by (induction d) auto

lemma dict_of_distinct: "distinct (map fst (d @ kvs)) \<Longrightarrow> dict_of d kvs = d @ kvs"
proof (induction kvs arbitrary: d)
  case Nil
  show ?case by simp
next
  case (Cons kv kvs)
  obtain k v where kv: "kv = (k, v)" by (cases kv)
  have "k \<notin> fst ` set d" using Cons.prems by (auto simp: kv)
  then have u: "AList.update k v d = d @ [(k, v)]" by (rule update_fresh)
  have "distinct (map fst ((d @ [(k, v)]) @ kvs))" using Cons.prems by (simp add: kv)
  then have "dict_of (d @ [(k, v)]) kvs = (d @ [(k, v)]) @ kvs" by (rule Cons.IH)
  then show ?case by (simp add: kv u)
qed

lemma parse_value_dumps_indent:
  "keys_distinct v \<Longrightarrow> size v < n \<Longrightarrow> ends_value rest \<Longrightarrow>
     parse_value n (dumps_indent l v @ rest) = Some (v, rest)"
proof (induction v arbitrary: n l rest)
  case JNull
  obtain n' where n: "n = Suc n'" using JNull(2) by (cases n) auto
  show ?case unfolding n by (simp only: dumps_indent.simps parse_value_atoms)
next
  case (JBool b)
  obtain n' where n: "n = Suc n'" using JBool(2) by (cases n) auto
  show ?case unfolding n by (cases b) (simp_all only: dumps_indent.simps parse_value_atoms if_True if_False)
next
  case (JInt k)
  obtain n' where n: "n = Suc n'" using JInt(2) by (cases n) auto
  show ?case unfolding n by (simp only: dumps_indent.simps parse_value_JInt [OF JInt(3)])
next
  case (JStr s)
  obtain n' where n: "n = Suc n'" using JStr(2) by (cases n) auto
  show ?case unfolding n by (simp only: dumps_indent.simps parse_value_JStr)
next
  case (JArr xs)
  obtain n' where n: "n = Suc n'" and s: "size_list size xs < n'"
    using JArr.prems(2) by (cases n) auto
  show ?case
  proof (cases "xs = []")
    case True
    then show ?thesis by (simp only: n dumps_indent.simps if_True simp_thms parse_value_atoms)
  next
    case False
    have ih: "\<And>x n l rest. x \<in> set xs \<Longrightarrow> size x < n \<Longrightarrow> ends_value rest \<Longrightarrow>
             parse_value n (dumps_indent l x @ rest) = Some (x, rest)"
      using JArr.IH JArr.prems(1) by simp
    have items: "parse_items n'
           (join (CHR '','' # newline_indent (l + 1)) (map (dumps_indent (l + 1)) xs)
              @ newline_indent l @ CHR '']'' # rest) = Some (xs, rest)"
      using ih False s by (rule parse_items_join)
    obtain y ys where ys: "xs = y # ys" using False by (cases xs) auto
    obtain c cs where c: "join (CHR '','' # newline_indent (l + 1)) (map (dumps_indent (l + 1)) xs)
              @ newline_indent l @ CHR '']'' # rest = c # cs" and sv: "starts_value c"
      using dumps_indent_first [of "l + 1" y] by (cases ys) (auto simp: ys)
    have "parse_value (Suc n') (CHR ''['' # newline_indent (l + 1) @ c # cs) = Some (JArr xs, rest)"
      using items sv unfolding c
      by (simp add: skip_ws_newline_indent skip_ws_Cons starts_value_def)
    then show ?thesis
      using False c by (simp add: n)
  qed
next
  case (JObj kvs)
  obtain n' where n: "n = Suc n'" and s: "size_list (size_prod (\<lambda>k. 0) size) kvs < n'"
    using JObj.prems(2) by (cases n) auto
  show ?case
  proof (cases "kvs = []")
    case True
    then show ?thesis by (simp only: n dumps_indent.simps if_True simp_thms parse_value_atoms)
  next
    case False
    have ih: "\<And>k v n l rest. (k, v) \<in> set kvs \<Longrightarrow> size v < n \<Longrightarrow> ends_value rest \<Longrightarrow>
             parse_value n (dumps_indent l v @ rest) = Some (v, rest)"
    proof -
      fix k v n l rest
      assume kv: "(k, v) \<in> set kvs" and a: "size v < n" "ends_value rest"
      have "keys_distinct v" using JObj.prems(1) kv by auto
      moreover have "v \<in> Basic_BNFs.snds (k, v)" by simp
      ultimately show "parse_value n (dumps_indent l v @ rest) = Some (v, rest)"
        using JObj.IH [OF kv] a by blast
    qed
    have pairs: "parse_pairs n'
           (join (CHR '','' # newline_indent (l + 1)) (map (dumps_pair (l + 1)) kvs)
              @ newline_indent l @ CHR ''}'' # rest) = Some (kvs, rest)"
      using ih False s by (rule parse_pairs_join)
    obtain y ys where ys: "kvs = y # ys" using False by (cases kvs) auto
    obtain k0 v0 where y: "y = (k0, v0)" by (cases y)
    obtain cs where c: "join (CHR '','' # newline_indent (l + 1)) (map (dumps_pair (l + 1)) kvs)
              @ newline_indent l @ CHR ''}'' # rest = CHR 0x22 # cs"
      by (cases ys) (auto simp: ys y dumps_str_def)
    have d: "dict_of [] kvs = kvs"
      using dict_of_distinct [of "[]" kvs] JObj.prems(1) by simp
    have "parse_value (Suc n') (CHR ''{'' # newline_indent (l + 1) @ CHR 0x22 # cs) = Some (JObj kvs, rest)"
      using pairs unfolding c
      by (simp add: skip_ws_newline_indent skip_ws_Cons is_ws_def d)
    then show ?thesis
      using False c by (simp add: n)
  qed
qed

lemma size_list_le_join:
  assumes "\<And>x. x \<in> set xs \<Longrightarrow> g x \<le> length (f x)" and "sep \<noteq> []"
  shows "size_list g xs \<le> length (join sep (map f xs)) + 1"
  using assms(1)
proof (induction xs)
  case Nil
  show ?case by simp
next
  case (Cons x xs)
  have x: "g x \<le> length (f x)" using Cons.prems by simp
  have ih: "size_list g xs \<le> length (join sep (map f xs)) + 1" using Cons by simp
  have s: "1 \<le> length sep" using assms(2) by (cases sep) auto
  show ?case
  proof (cases xs)
    case Nil
    then show ?thesis using x by simp
  next
    case (Cons y ys)
    then show ?thesis using x ih s by simp
  qed
qed

lemma size_le_length_dumps_indent: "size v \<le> length (dumps_indent l v)"
proof (induction v arbitrary: l)
  case (JArr xs)
  have "size_list size xs \<le>
      length (join (CHR '','' # newline_indent (l + 1)) (map (dumps_indent (l + 1)) xs)) + 1"
    by (rule size_list_le_join) (simp_all add: JArr)
  then show ?case by (simp add: newline_indent_def)
next
  case (JObj kvs)
  have "size_list (size_prod (\<lambda>k. 0) size) kvs \<le>
      length (join (CHR '','' # newline_indent (l + 1)) (map (dumps_pair (l + 1)) kvs)) + 1"
  proof (rule size_list_le_join)
    fix kv assume kv: "kv \<in> set kvs"
    obtain k v where p: "kv = (k, v)" by (cases kv)
    have "v \<in> Basic_BNFs.snds kv" by (simp add: p)
    then have "size v \<le> length (dumps_indent (l + 1) v)" using JObj kv by blast
    then show "size_prod (\<lambda>k. 0) size kv \<le> length (dumps_pair (l + 1) kv)"
      by (simp add: p dumps_str_def)
  qed simp
  then show ?case by (simp add: newline_indent_def)
qed simp_all

lemma loads_dumps: "keys_distinct v \<Longrightarrow> loads (dumps v) = Some v"
proof -
  assume k: "keys_distinct v"
  have s: "size v < Suc (length (dumps v))"
    using size_le_length_dumps_indent [of v 0] by (simp add: dumps_def)
  have w: "skip_ws (dumps_indent 0 v) = dumps_indent 0 v"
    using skip_ws_dumps_indent [of 0 v "[]"] by simp
  have "parse_value (Suc (length (dumps v))) (dumps_indent 0 v @ []) = Some (v, [])"
    using k s ends_value_Nil by (rule parse_value_dumps_indent)
  then have p: "parse_value (Suc (length (dumps v))) (skip_ws (dumps v)) = Some (v, [])"
    by (simp only: w dumps_def append_Nil2)
  have e: "skip_ws [] = []" by (simp add: skip_ws_def)
  show ?thesis
    by (simp only: loads_def p option.case prod.case e if_True simp_thms)
qed

lemma import_strings_JStr: "import_strings (map JStr ss) = Some ss"
  by (induction ss) simp_all

lemma import_match_info_json: "import_match_info (match_info_json e) = Some e"
  by (simp add: import_match_info_def match_info_json_def import_strings_JStr)

lemma import_matches_json: "import_matches (matches_json m) = Some m"
proof -
  have "those (map (\<lambda>(feature, e). map_option (Pair feature) (import_match_info e))
          (map (\<lambda>(feature, e). (feature, match_info_json e)) m)) = Some m"
    by (induction m) (auto simp: import_match_info_json)
  then show ?thesis by (simp add: import_matches_def matches_json_def)
qed

lemma import_export_value: "import_value (export_value best_patents) = Some best_patents"
proof -
  have "those (map import_patent (map (\<lambda>(title, link, matches).
                  JObj [(''patent_title'', JStr title),
                        (''patent_link'', JStr link),
                        (''matches'', matches_json matches)]) best_patents)) = Some best_patents"
    by (induction best_patents) (auto simp: import_patent_def import_matches_json)
  then show ?thesis by (simp add: import_value_def export_value_def)
qed

lemma keys_distinct_match_info_json: "keys_distinct (match_info_json e)"
  by (simp add: match_info_json_def)

lemma keys_distinct_matches_json: "distinct (map fst m) \<Longrightarrow> keys_distinct (matches_json m)"
proof -
  assume d: "distinct (map fst m)"
  have h: "map (fst \<circ> (\<lambda>(feature, e). (feature, match_info_json e))) m = map fst m"
    by (induction m) auto
  show ?thesis
    unfolding matches_json_def keys_distinct.simps
  proof (intro conjI ballI)
    show "distinct (map fst (map (\<lambda>(feature, e). (feature, match_info_json e)) m))"
      by (simp only: map_map h d)
  next
    fix kv
    assume "kv \<in> set (map (\<lambda>(feature, e). (feature, match_info_json e)) m)"
    then show "keys_distinct (snd kv)"
      by (auto simp: keys_distinct_match_info_json)
  qed
qed

lemma keys_distinct_export_value:
  "\<forall>(title, link, matches) \<in> set best_patents. distinct (map fst matches) \<Longrightarrow>
     keys_distinct (export_value best_patents)"
  by (auto simp: export_value_def keys_distinct_matches_json)

text \<open>
  C8. For every result set in which each \<open>matches\<close> dictionary has distinct keys, as
  every Python dictionary has, the exported text parses back to the value that was
  exported (an array of objects with the keys \<open>patent_title\<close>, \<open>patent_link\<close> and
  \<open>matches\<close>, the last mapping each feature to its score and justification list), and
  reading that value gives back the same titles, links, scores and justification lists.
\<close>

theorem export_parses_back_to_same_results:
  assumes "\<forall>(title, link, matches) \<in> set best_patents. distinct (map fst matches)"
  shows "loads (result_json best_patents) = Some (export_value best_patents)
       \<and> import_value (export_value best_patents) = Some best_patents"
  using loads_dumps [OF keys_distinct_export_value [OF assms]] import_export_value
  by (simp add: result_json_def)

lemma demo_best_keys: "\<forall>(title, link, matches) \<in> set demo_best. distinct (map fst matches)"
  by (simp add: demo_best_def demo_matches_def)

lemma demo_search_best:
  "fst (search_best_matching_patents demo_world containment_ratio ''widget drive'' demo_features
          ''key'' 40 2 3 []) = Inr demo_best"
  by (simp only: demo_search demo_best_def)

theorem export_parses_back_to_same_results_witness:
  "fst (search_best_matching_patents demo_world containment_ratio ''widget drive'' demo_features
          ''key'' 40 2 3 []) = Inr demo_best
   \<and> loads (result_json demo_best) = Some (export_value demo_best)
   \<and> import_value (export_value demo_best) = Some demo_best"
  using demo_search_best export_parses_back_to_same_results [OF demo_best_keys]
  by (intro conjI) blast+

lemma demo_result_json_lines:
  "take 46 (result_json demo_best) =
     ''['' @ [CHR 0x0A] @ ''  {'' @ [CHR 0x0A] @ ''    '' @ [CHR 0x22] @ ''patent_title'' @ [CHR 0x22]
       @ '': '' @ [CHR 0x22] @ ''Widget drive'' @ [CHR 0x22] @ '','' @ [CHR 0x0A] @ ''    ''"
  by code_simp

end
